theory Spec2Isabelle
  imports Main "HOL-Library.Monad_Syntax"
begin

section \<open>JavaScript values seen by the assertion library\<close>

text \<open>
  The values that reach \<^verbatim>\<open>throws\<close> and \<^verbatim>\<open>doesNotThrow\<close> in \<^verbatim>\<open>src/dist/index.mjs\<close>:
  primitives, and objects kept by reference. \<open>Object a\<close> and \<open>Function a\<close> stand for the
  object at address \<open>a\<close> of the host's heap, the second for one that can be called, which
  is all that \<^verbatim>\<open>typeof\<close> needs. What the object is (its prototype chain, its properties,
  whether it is a regular expression and in which state) is known to the host only; two
  references are the same object exactly when their addresses are equal.
\<close>

datatype jsval =
    Undefined
  | Null
  | Boolean bool
  | Number int
  | String string
  | Object nat
  | Function nat

text \<open>\<^verbatim>\<open>typeof v\<close>.\<close>

fun typeof :: "jsval \<Rightarrow> string" where
  "typeof Undefined = ''undefined''"
| "typeof Null = ''object''"
| "typeof (Boolean _) = ''boolean''"
| "typeof (Number _) = ''number''"
| "typeof (String _) = ''string''"
| "typeof (Object _) = ''object''"
| "typeof (Function _) = ''function''"

text \<open>Truthiness, as \<^verbatim>\<open>Boolean(v)\<close>, \<^verbatim>\<open>a && b\<close> and \<^verbatim>\<open>a || b\<close> decide it.\<close>

fun truthy :: "jsval \<Rightarrow> bool" where
  "truthy Undefined = False"
| "truthy Null = False"
| "truthy (Boolean b) = b"
| "truthy (Number n) = (n \<noteq> 0)"
| "truthy (String s) = (s \<noteq> [])"
| "truthy (Object _) = True"
| "truthy (Function _) = True"

text \<open>
  An operation of the host, applied in the state \<open>h\<close> of the host, completes normally with
  a value or abruptly with a raised value, and leaves the host in a new state. \<open>andThen\<close>
  is the sequencing of statements: what is raised by the first is raised by the whole.
\<close>

datatype ('a, 'h) completion = Normal 'a 'h | Abrupt jsval 'h

definition andThen ::
  "('h \<Rightarrow> ('a, 'h) completion) \<Rightarrow> ('a \<Rightarrow> 'h \<Rightarrow> ('b, 'h) completion) \<Rightarrow>
   'h \<Rightarrow> ('b, 'h) completion" where
  "andThen m f h = (case m h of Normal v h' \<Rightarrow> f v h' | Abrupt e h' \<Rightarrow> Abrupt e h')"

text \<open>
  The operations of the host that \<^verbatim>\<open>throws\<close> applies to the values it is given. Each of
  them may raise and may change the state of the host, so each is a parameter here and
  not a function of the value alone:
  \<^item> \<open>RegExp'\<close>, the value of the global \<^verbatim>\<open>RegExp\<close>;
  \<^item> \<open>instanceof v c\<close>, the operator \<^verbatim>\<open>v instanceof c\<close>;
  \<^item> \<open>regexp_test re v\<close>, the call \<^verbatim>\<open>re.test(v)\<close> of the built-in method, which converts
    \<open>v\<close> to a string, answers with a Boolean and moves \<^verbatim>\<open>lastIndex\<close>;
  \<^item> \<open>message_of v\<close> and \<open>constructor_of v\<close>, the property reads \<^verbatim>\<open>v.message\<close> and
    \<^verbatim>\<open>v.constructor\<close>;
  \<^item> \<open>to_String v\<close>, the call \<^verbatim>\<open>String(v)\<close>.
\<close>

record 'h host =
  RegExp' :: jsval
  instanceof :: "jsval \<Rightarrow> jsval \<Rightarrow> 'h \<Rightarrow> (bool, 'h) completion"
  regexp_test :: "jsval \<Rightarrow> jsval \<Rightarrow> 'h \<Rightarrow> (bool, 'h) completion"
  message_of :: "jsval \<Rightarrow> 'h \<Rightarrow> (jsval, 'h) completion"
  constructor_of :: "jsval \<Rightarrow> 'h \<Rightarrow> (jsval, 'h) completion"
  to_String :: "jsval \<Rightarrow> 'h \<Rightarrow> (jsval, 'h) completion"

section \<open>Assertion results\<close>

text \<open>
  The object an assertion method builds. Properties that a given method does not set are
  \<open>None\<close>.
\<close>

record assertion =
  pass :: bool
  description :: jsval
  operator :: "string option"
  expected :: "jsval option"
  actual :: "jsval option"
  at' :: "string option"
  id' :: "nat option"
  executionTime :: "nat option"

text \<open>\<^verbatim>\<open>ok\<close> and \<^verbatim>\<open>fail\<close> (the functions wrapped by \<^verbatim>\<open>assertMethodHook\<close>).\<close>

definition ok :: "jsval \<Rightarrow> jsval \<Rightarrow> assertion" where
  "ok val description0 =
     \<lparr>pass = truthy val,
      description = (if description0 = Undefined then String ''should be truthy'' else description0),
      operator = Some ''ok'', expected = Some (Boolean True), actual = Some val,
      at' = None, id' = None, executionTime = None\<rparr>"

definition fail :: "jsval \<Rightarrow> assertion" where
  "fail description0 =
     \<lparr>pass = False,
      description = (if description0 = Undefined then String ''fail called'' else description0),
      operator = Some ''fail'', expected = Some (String ''fail not called''),
      actual = Some (String ''fail called''),
      at' = None, id' = None, executionTime = None\<rparr>"

text \<open>
  \<^verbatim>\<open>throws\<close> (lines 63 to 91), on the host \<open>H\<close> in the state \<open>h0\<close>. The function under test
  is given by what the call \<^verbatim>\<open>func()\<close> does: it completes normally, or abruptly with the
  value it raises (for a \<^verbatim>\<open>func\<close> that cannot be called, the TypeError of the call). The
  statements run in the order of the source, and \<^verbatim>\<open>throws\<close> completes abruptly as soon as an
  operation of the host does, for none of them is inside the \<^verbatim>\<open>try\<close>: the first
  \<^verbatim>\<open>instanceof\<close>; in the branch of a regular expression the first \<^verbatim>\<open>test\<close>, and only when
  it answers false the read of \<^verbatim>\<open>actual.message\<close> (made when \<^verbatim>\<open>actual\<close> is truthy) and the
  second \<^verbatim>\<open>test\<close>, then \<^verbatim>\<open>String(expected)\<close>; in the branch of a function the second
  \<^verbatim>\<open>instanceof\<close> and then the read of \<^verbatim>\<open>actual.constructor\<close>.
\<close>

definition throws ::
  "'h host \<Rightarrow> ('h \<Rightarrow> (jsval, 'h) completion) \<Rightarrow> jsval \<Rightarrow> jsval \<Rightarrow>
   'h \<Rightarrow> (assertion, 'h) completion" where
  "throws H func expected0 description0 h0 =
    (let (expected1, description1) =
           (if typeof expected0 = ''string'' then (description0, expected0)
            else (expected0, description0));
         (caught, h1) =
           (case func h0 of Normal _ h \<Rightarrow> (None, h) | Abrupt err h \<Rightarrow> (Some err, h));
         pass0 = (caught \<noteq> None);
         actual0 = (case caught of None \<Rightarrow> Undefined | Some err \<Rightarrow> err);
         outcome = (\<lambda>p e a.
           Normal
             \<lparr>pass = p,
              description = (if truthy description1 then description1 else String ''should throw''),
              operator = Some ''throws'', expected = Some e, actual = Some a,
              at' = None, id' = None, executionTime = None\<rparr>)
     in andThen (instanceof H expected1 (RegExp' H)) (\<lambda>is_regexp.
          if is_regexp then
            andThen (regexp_test H expected1 actual0) (\<lambda>first.
            andThen (if first then Normal True
                     else andThen (if truthy actual0 then message_of H actual0
                                   else Normal actual0)
                            (regexp_test H expected1)) (\<lambda>pass1.
            andThen (to_String H expected1) (\<lambda>expected2.
            outcome pass1 expected2 actual0)))
          else if typeof expected1 = ''function'' \<and> caught \<noteq> None then
            andThen (instanceof H actual0 expected1) (\<lambda>pass1.
            andThen (constructor_of H actual0) (\<lambda>actual1.
            outcome pass1 expected1 actual1))
          else outcome pass0 expected1 actual0) h1)"

text \<open>
  \<^verbatim>\<open>doesNotThrow\<close> (lines 92 to 109). It applies no operation of the host but the call of
  the function under test, inside the \<^verbatim>\<open>try\<close>, so it always returns a result.
\<close>

definition doesNotThrow ::
  "('h \<Rightarrow> (jsval, 'h) completion) \<Rightarrow> jsval \<Rightarrow> jsval \<Rightarrow> 'h \<Rightarrow> assertion \<times> 'h" where
  "doesNotThrow func expected0 description0 h0 =
    (let (expected1, description1) =
           (if typeof expected0 = ''string'' then (description0, expected0)
            else (expected0, description0));
         (caught, h1) =
           (case func h0 of Normal _ h \<Rightarrow> (None, h) | Abrupt err h \<Rightarrow> (Some err, h))
     in (\<lparr>pass = (caught = None),
          description = (if truthy description1 then description1 else String ''should not throw''),
          operator = Some ''doesNotThrow'', expected = Some (String ''no thrown error''),
          actual = Some (case caught of None \<Rightarrow> Undefined | Some err \<Rightarrow> err),
          at' = None, id' = None, executionTime = None\<rparr>, h1))"

text \<open>
  \<^verbatim>\<open>assertMethodHook\<close> (lines 9 to 18), up to the call of \<^verbatim>\<open>this.collect\<close>: a failing
  result gets the call site \<open>loc\<close> that \<^verbatim>\<open>getAssertionLocation\<close> reads off the stack.
\<close>

definition assertMethodHook :: "assertion \<Rightarrow> string \<Rightarrow> assertion" where
  "assertMethodHook assertResult loc =
     (if pass assertResult = False then assertResult\<lparr>at' := Some loc\<rparr> else assertResult)"

section \<open>Events and test units\<close>

text \<open>
  An item of the event stream is the object \<^verbatim>\<open>{type, data, offset}\<close>. The payload depends
  on the type, so the pair of \<^verbatim>\<open>type\<close> and \<^verbatim>\<open>data\<close> is one tagged value;
  \<open>type\<close> gives back the string the source compares. \<open>offset\<close> is \<open>None\<close> on the objects
  the source builds without that property (\<^verbatim>\<open>undefined > 0\<close> is false).
\<close>

datatype message =
    Title string
  | Assert assertion
  | TestAssert assertion
  | Plan nat nat
  | Time nat
  | Comment string
  | Bailout jsval
  | Version nat

record event =
  message :: message
  offset :: "nat option"

fun type :: "message \<Rightarrow> string" where
  "type (Title _) = ''title''"
| "type (Assert _) = ''assert''"
| "type (TestAssert _) = ''testAssert''"
| "type (Plan _ _) = ''plan''"
| "type (Time _) = ''time''"
| "type (Comment _) = ''comment''"
| "type (Bailout _) = ''bailout''"
| "type (Version _) = ''version''"

text \<open>\<^verbatim>\<open>item.offset > 0\<close>.\<close>

definition offset_positive :: "event \<Rightarrow> bool" where
  "offset_positive item = (case offset item of None \<Rightarrow> False | Some n \<Rightarrow> 0 < n)"

text \<open>
  A test body (\<^verbatim>\<open>spec\<close>) is known to the library only through the calls it makes on the
  assertion object it receives, in program order: an assertion method whose predicate
  computed the given result at the given call site, a nested \<^verbatim>\<open>t.test(description, spec)\<close>,
  a suspension (an \<^verbatim>\<open>await\<close>, with the milliseconds that pass), or raising a value.
  Whatever follows a \<open>Throw\<close> is never run.
\<close>

datatype action =
    Check assertion string
  | Test string "action list"
  | Await nat
  | Throw jsval

text \<open>
  \<^verbatim>\<open>const result = {count: 0, pass: true, description, spec}\<close> of \<^verbatim>\<open>tester\<close>, with the
  \<^verbatim>\<open>executionTime\<close> added when the body settles (the \<^verbatim>\<open>spec\<close> property is never read
  and is left out).
\<close>

record result =
  count :: nat
  pass' :: bool
  description' :: string
  executionTime' :: "nat option"

text \<open>
  \<^verbatim>\<open>coRoutine\<close>, the promise of the body: pending, resolved with the \<^verbatim>\<open>result\<close> object
  itself (the success handler returns the object, so later changes to it show through), or
  resolved with \<^verbatim>\<open>undefined\<close> (the failure handler returns nothing).
\<close>

datatype promise = Pending | ResolvedResult | ResolvedUndefined

text \<open>
  The closure state of one \<^verbatim>\<open>tester\<close> call: \<^verbatim>\<open>buffer\<close>, \<^verbatim>\<open>result\<close>, \<^verbatim>\<open>done\<close>,
  \<^verbatim>\<open>offset\<close> and \<^verbatim>\<open>coRoutine\<close>; \<open>todo\<close> is the part of the body that has not run yet,
  \<open>elapsed\<close> the milliseconds since \<^verbatim>\<open>start\<close>, and \<open>instance_id\<close> the \<^verbatim>\<open>id\<close> property that
  the parent's collector sets on the instance. A buffer slot holds an event or a sub test
  (an object with \<^verbatim>\<open>Symbol.asyncIterator\<close>).
\<close>

datatype item = Event event | SubTest test_instance
and test_instance =
  Instance (buffer: "item list") (result: result) (done': bool) (unit_offset: nat)
    (todo: "action list") (elapsed: nat) (coRoutine: promise) (instance_id: "nat option")

fun set_buffer :: "item list \<Rightarrow> test_instance \<Rightarrow> test_instance" where
  "set_buffer b (Instance _ r d off td el co i) = Instance b r d off td el co i"

fun set_result :: "result \<Rightarrow> test_instance \<Rightarrow> test_instance" where
  "set_result r (Instance b _ d off td el co i) = Instance b r d off td el co i"

fun set_done :: "bool \<Rightarrow> test_instance \<Rightarrow> test_instance" where
  "set_done d (Instance b r _ off td el co i) = Instance b r d off td el co i"

fun set_todo :: "action list \<Rightarrow> test_instance \<Rightarrow> test_instance" where
  "set_todo td (Instance b r d off _ el co i) = Instance b r d off td el co i"

fun set_elapsed :: "nat \<Rightarrow> test_instance \<Rightarrow> test_instance" where
  "set_elapsed el (Instance b r d off td _ co i) = Instance b r d off td el co i"

fun set_coRoutine :: "promise \<Rightarrow> test_instance \<Rightarrow> test_instance" where
  "set_coRoutine co (Instance b r d off td el _ i) = Instance b r d off td el co i"

fun set_instance_id :: "nat option \<Rightarrow> test_instance \<Rightarrow> test_instance" where
  "set_instance_id i (Instance b r d off td el co _) = Instance b r d off td el co i"

text \<open>\<^verbatim>\<open>buffer.push(x)\<close>.\<close>

definition push :: "item \<Rightarrow> test_instance \<Rightarrow> test_instance" where
  "push x u = set_buffer (buffer u @ [x]) u"

text \<open>
  \<^verbatim>\<open>createAssertion\<close> (lines 132 to 135): folds the item's \<^verbatim>\<open>pass\<close> into
  \<^verbatim>\<open>result.pass\<close> and wraps the item in an \<^verbatim>\<open>assert\<close> event at the unit's offset.
\<close>

definition createAssertion :: "assertion \<Rightarrow> test_instance \<Rightarrow> event \<times> test_instance" where
  "createAssertion item u =
     (\<lparr>message = Assert item, offset = Some (unit_offset u)\<rparr>,
      set_result ((result u)\<lparr>pass' := pass' (result u) \<and> pass item\<rparr>) u)"

text \<open>
  \<^verbatim>\<open>collector\<close> (lines 137 to 147): \<open>Inl\<close> is an assertion result, \<open>Inr\<close> a sub test.
\<close>

definition collector :: "assertion + test_instance \<Rightarrow> test_instance \<Rightarrow> test_instance" where
  "collector x u =
     (let u1 = set_result ((result u)\<lparr>count := count (result u) + 1\<rparr>) u;
          n = count (result u1)
      in case x of
           Inl a \<Rightarrow> (let (e, u2) = createAssertion (a\<lparr>id' := Some n\<rparr>) u1 in push (Event e) u2)
         | Inr t \<Rightarrow> push (SubTest (set_instance_id (Some n) t)) u1)"

text \<open>
  \<^verbatim>\<open>tester(collect, {offset})(description, spec)\<close> (lines 127 to 219), at the moment the
  body is handed to the promise: the buffer holds the title and nothing of the body has
  run. The call \<^verbatim>\<open>collect(instance)\<close> is made by the caller of \<open>tester\<close> below.
\<close>

definition tester :: "nat \<Rightarrow> string \<Rightarrow> action list \<Rightarrow> test_instance" where
  "tester off description0 spec =
     Instance [Event \<lparr>message = Title description0, offset = Some off\<rparr>]
       \<lparr>count = 0, pass' = True, description' = description0, executionTime' = None\<rparr>
       False off spec 0 Pending None"

text \<open>
  One call of the body on its assertion object. \<^verbatim>\<open>t.test\<close> (lines 121 to 124) builds the
  child with \<^verbatim>\<open>tester(collector, {offset: offset + 1})\<close>, which collects it into this
  unit's buffer. A \<open>Throw\<close> is handled by \<open>run_body\<close>.
\<close>

fun exec :: "action \<Rightarrow> test_instance \<Rightarrow> test_instance" where
  "exec (Check assertResult loc) u = collector (Inl (assertMethodHook assertResult loc)) u"
| "exec (Test description0 spec) u = collector (Inr (tester (unit_offset u + 1) description0 spec)) u"
| "exec (Await ms) u = set_elapsed (elapsed u + ms) u"
| "exec (Throw err) u = u"

text \<open>The success handler of \<^verbatim>\<open>coRoutine\<close> (lines 174 to 180).\<close>

definition on_fulfilled :: "test_instance \<Rightarrow> test_instance" where
  "on_fulfilled u =
     (let u1 = set_result ((result u)\<lparr>executionTime' := Some (elapsed u)\<rparr>) u;
          u2 = push (Event \<lparr>message = Plan 1 (count (result u1)), offset = Some (unit_offset u1)\<rparr>) u1;
          u3 = push (Event \<lparr>message = Time (elapsed u), offset = Some (unit_offset u2)\<rparr>) u2
      in set_coRoutine ResolvedResult (set_done True u3))"

text \<open>The failure handler of \<^verbatim>\<open>coRoutine\<close> (lines 181 to 186).\<close>

definition on_rejected :: "jsval \<Rightarrow> test_instance \<Rightarrow> test_instance" where
  "on_rejected err u =
     (let u1 = push (Event \<lparr>message = Assert
                 \<lparr>pass = False, description = String (description' (result u)), operator = None,
                  expected = None, actual = None, at' = None, id' = None, executionTime = None\<rparr>,
               offset = None\<rparr>) u;
          u2 = push (Event \<lparr>message = Comment ''Unhandled exception'', offset = None\<rparr>) u1;
          u3 = push (Event \<lparr>message = Bailout err, offset = Some (unit_offset u2)\<rparr>) u2
      in set_coRoutine ResolvedUndefined u3)"

text \<open>
  The body from a given point to its end: each call in turn, then the success handler, or
  the failure handler at the first \<open>Throw\<close>.
\<close>

fun run_body :: "action list \<Rightarrow> test_instance \<Rightarrow> test_instance" where
  "run_body [] u = on_fulfilled u"
| "run_body (Throw err # spec) u = on_rejected err u"
| "run_body (Check r loc # spec) u = run_body spec (exec (Check r loc) u)"
| "run_body (Test d b # spec) u = run_body spec (exec (Test d b) u)"
| "run_body (Await ms # spec) u = run_body spec (exec (Await ms) u)"

text \<open>
  \<^verbatim>\<open>await coRoutine\<close>: the caller resumes once the body has settled. A body makes its
  calls whether or not anybody pulls, so a unit can be met with any part of its body
  already run; \<open>progress\<close> is one such step of the body on its own.
\<close>

definition settle :: "test_instance \<Rightarrow> test_instance" where
  "settle u = (case coRoutine u of Pending \<Rightarrow> run_body (todo u) (set_todo [] u) | _ \<Rightarrow> u)"

definition progress :: "test_instance \<Rightarrow> test_instance" where
  "progress u =
     (case coRoutine u of
        Pending \<Rightarrow>
          (case todo u of
             [] \<Rightarrow> on_fulfilled u
           | Throw err # spec \<Rightarrow> on_rejected err (set_todo [] u)
           | a # spec \<Rightarrow> exec a (set_todo spec u))
      | _ \<Rightarrow> u)"

section \<open>The pull protocol of a unit\<close>

text \<open>
  What a pull returns: \<^verbatim>\<open>{value, done: false}\<close> or \<^verbatim>\<open>{done: true, value}\<close>.
\<close>

datatype ('a, 'r) iter_result = Value 'a | Done 'r

text \<open>
  The summary event that \<^verbatim>\<open>handleDelegate\<close> builds from the value of an exhausted sub test
  (lines 154 to 160): \<^verbatim>\<open>createAssertion\<close> of \<^verbatim>\<open>{pass, description, id: delegate.id,
  executionTime}\<close>, retyped \<^verbatim>\<open>testAssert\<close>.
\<close>

definition subTestAssertion :: "result \<Rightarrow> test_instance \<Rightarrow> test_instance \<Rightarrow> event \<times> test_instance" where
  "subTestAssertion v delegate u =
     (let (e, u1) = createAssertion
            \<lparr>pass = pass' v, description = String (description' v), operator = None,
             expected = None, actual = None, at' = None, id' = instance_id delegate,
             executionTime = executionTime' v\<rparr> u
      in (case message e of Assert a \<Rightarrow> e\<lparr>message := TestAssert a\<rparr> | _ \<Rightarrow> e, u1))"

text \<open>
  \<^verbatim>\<open>instance.next\<close> (lines 194 to 212) with \<^verbatim>\<open>handleDelegate\<close> (lines 149 to 166) in its
  sub test branch. The result is \<open>None\<close> when the promise that \<^verbatim>\<open>next\<close> returns never
  resolves: \<^verbatim>\<open>await coRoutine; return this.next()\<close> repeats for ever on a unit whose
  body has settled without \<^verbatim>\<open>done\<close>.
\<close>

partial_function (option) next' ::
  "test_instance \<Rightarrow> ((event, result) iter_result \<times> test_instance) option" where
  "next' this =
     (case buffer this of
        [] \<Rightarrow> if done' this then Some (Done (result this), this) else next' (settle this)
      | Event e # rest \<Rightarrow> Some (Value e, set_buffer rest this)
      | SubTest delegate # rest \<Rightarrow>
          do { (r, delegate') \<leftarrow> next' delegate;
               case r of
                 Done v \<Rightarrow>
                   (let (sub, this') = subTestAssertion v delegate' this
                    in next' (set_buffer (Event sub # rest) this'))
               | Value v \<Rightarrow> Some (Value v, set_buffer (SubTest delegate' # rest) this) })"

declare next'.simps [code]

section \<open>Combinators over asynchronous iterators\<close>

text \<open>
  An asynchronous iterator is its \<^verbatim>\<open>next\<close> method acting on the state it closes over:
  \<open>None\<close> when the returned promise never resolves, otherwise what it resolves with and
  the state after the call.
\<close>

type_synonym ('s, 'a, 'r) iterator = "'s \<Rightarrow> (('a, 'r) iter_result \<times> 's) option"

text \<open>
  The sequence as its consumer sees it: pull until the iterator is done, giving the values
  in order, the terminal value and the final state; \<open>None\<close> if some pull never resolves.
\<close>

partial_function (option) drain :: "('s, 'a, 'r) iterator \<Rightarrow> 's \<Rightarrow> ('a list \<times> 'r \<times> 's) option" where
  "drain iterator s =
     do { (r, s') \<leftarrow> iterator s;
          case r of
            Done v \<Rightarrow> Some ([], v, s')
          | Value x \<Rightarrow> do { (xs, v, s'') \<leftarrow> drain iterator s'; Some (x # xs, v, s'') } }"

declare drain.simps [code]

text \<open>
  \<^verbatim>\<open>filter\<close> (lines 297 to 311). At the end it returns \<^verbatim>\<open>{done}\<close>: the \<^verbatim>\<open>value\<close> property
  is absent, \<open>Done None\<close>.
\<close>

partial_function (option) filter' ::
  "('a \<Rightarrow> bool) \<Rightarrow> ('s, 'a, 'r) iterator \<Rightarrow> 's \<Rightarrow> (('a, 'r option) iter_result \<times> 's) option" where
  "filter' predicate iterator s =
     do { (r, s') \<leftarrow> iterator s;
          case r of
            Done _ \<Rightarrow> Some (Done None, s')
          | Value v \<Rightarrow>
              if \<not> predicate v then filter' predicate iterator s' else Some (Value v, s') }"

declare filter'.simps [code]

text \<open>
  \<^verbatim>\<open>map\<close> (lines 313 to 324). The function mapped by \<^verbatim>\<open>start\<close> updates variables it
  closes over, so \<open>mapFn\<close> takes and returns that closure state \<open>c\<close>, which the mapped
  iterator carries beside the state of the underlying one.
\<close>

definition map' ::
  "('a \<Rightarrow> 'c \<Rightarrow> 'b \<times> 'c) \<Rightarrow> ('s, 'a, 'r) iterator \<Rightarrow> ('s \<times> 'c, 'b, 'r option) iterator" where
  "map' mapFn iterator = (\<lambda>(s, c).
     do { (r, s') \<leftarrow> iterator s;
          case r of
            Done _ \<Rightarrow> Some (Done None, (s', c))
          | Value v \<Rightarrow> (let (v', c') = mapFn v c in Some (Value v', (s', c'))) })"

text \<open>
  \<^verbatim>\<open>combine\<close> (lines 326 to 347). Its state is \<^verbatim>\<open>current\<close> and \<^verbatim>\<open>pending\<close>;
  \<open>shift\<close> is \<^verbatim>\<open>pending.shift()\<close>, which gives \<^verbatim>\<open>undefined\<close> on the empty array. All the
  iterators combined here are of one kind, so they share the \<^verbatim>\<open>next\<close> function.
\<close>

fun shift :: "'s list \<Rightarrow> 's option \<times> 's list" where
  "shift [] = (None, [])"
| "shift (x # xs) = (Some x, xs)"

partial_function (option) combine ::
  "('s, 'a, 'r) iterator \<Rightarrow> ('s option \<times> 's list) \<Rightarrow>
     (('a, 'r option) iter_result \<times> ('s option \<times> 's list)) option" where
  "combine iterator st =
     (case st of
        (None, pending) \<Rightarrow> Some (Done None, (None, pending))
      | (Some current, pending) \<Rightarrow>
          do { (r, current') \<leftarrow> iterator current;
               case r of
                 Done _ \<Rightarrow> combine iterator (shift pending)
               | Value v \<Rightarrow> Some (Value v, (Some current', pending)) })"

declare combine.simps [code]

section \<open>The scheduler\<close>

text \<open>
  The module state: \<^verbatim>\<open>flatten\<close> and \<^verbatim>\<open>tests\<close> (lines 349 to 359). Loading the module
  registers the root unit; \<open>test\<close> is the exported \<^verbatim>\<open>test(description, spec)\<close>, whose
  collector is \<^verbatim>\<open>t => tests.push(t)\<close>, and \<open>test_test\<close> is \<^verbatim>\<open>test.test\<close>, which clears
  \<^verbatim>\<open>flatten\<close> and registers the unit as a sub test of the root, \<^verbatim>\<open>tests[0]\<close>.
\<close>

record harness =
  flatten :: bool
  tests :: "test_instance list"

definition module_init :: harness where
  "module_init = \<lparr>flatten = True, tests = [tester 0 ''Root'' []]\<rparr>"

definition test :: "string \<Rightarrow> action list \<Rightarrow> harness \<Rightarrow> harness" where
  "test description0 spec h = h\<lparr>tests := tests h @ [tester 0 description0 spec]\<rparr>"

definition test_test :: "string \<Rightarrow> action list \<Rightarrow> harness \<Rightarrow> harness" where
  "test_test description0 spec h =
     (case tests h of
        [] \<Rightarrow> h\<lparr>flatten := False\<rparr>
      | root # others \<Rightarrow>
          h\<lparr>flatten := False,
            tests := collector (Inr (tester 1 description0 spec)) root # others\<rparr>)"

text \<open>The variables \<^verbatim>\<open>count\<close>, \<^verbatim>\<open>success\<close> and \<^verbatim>\<open>failure\<close> of \<^verbatim>\<open>start\<close>.\<close>

record tally =
  count' :: nat
  success :: nat
  failure :: nat

text \<open>The two functions of the flattening step (lines 371 to 374).\<close>

definition not_testAssert :: "event \<Rightarrow> bool" where
  "not_testAssert item = (type (message item) \<noteq> ''testAssert'')"

definition zero_offset :: "event \<Rightarrow> unit \<Rightarrow> event \<times> unit" where
  "zero_offset item c = (item\<lparr>offset := Some 0\<rparr>, c)"

text \<open>\<^verbatim>\<open>toKeep\<close> and the filter that uses it (lines 376 to 378).\<close>

definition toKeep :: "string list" where
  "toKeep = [''assert'', ''comment'', ''title'', ''testAssert'']"

definition keep :: "event \<Rightarrow> bool" where
  "keep item = (offset_positive item \<or> List.member toKeep (type (message item)))"

text \<open>The renumbering function (lines 379 to 390).\<close>

definition renumber :: "event \<Rightarrow> tally \<Rightarrow> event \<times> tally" where
  "renumber item c =
     (if offset_positive item \<or>
         (type (message item) \<noteq> ''assert'' \<and> type (message item) \<noteq> ''testAssert'')
      then (item, c)
      else
        (let n = count' c + 1;
             number = (\<lambda>a. a\<lparr>id' := Some n\<rparr>);
             tally = (\<lambda>a. \<lparr>count' = n,
                           success = success c + (if pass a then 1 else 0),
                           failure = failure c + (if pass a then 0 else 1)\<rparr>)
         in case message item of
              Assert a \<Rightarrow> (item\<lparr>message := Assert (number a)\<rparr>, tally a)
            | TestAssert a \<Rightarrow> (item\<lparr>message := TestAssert (number a)\<rparr>, tally a)
            | _ \<Rightarrow> (item, c)))"

text \<open>The two stages of \<^verbatim>\<open>outputStream\<close>, over any underlying iterator.\<close>

definition flattened :: "('s, event, 'r) iterator \<Rightarrow> ('s \<times> unit, event, 'r option option) iterator" where
  "flattened iterator = map' zero_offset (filter' not_testAssert iterator)"

definition numbered :: "('s, event, 'r) iterator \<Rightarrow> ('s \<times> tally, event, 'r option option) iterator" where
  "numbered iterator = map' renumber (filter' keep iterator)"

text \<open>
  The pull loop of \<^verbatim>\<open>start\<close> (lines 392 to 404). \<open>reported\<close> is the list of the objects
  handed to \<^verbatim>\<open>reporter\<close> so far. The loop ends when the stream is done, or by rethrowing
  the payload of a \<^verbatim>\<open>bailout\<close> it has just reported.
\<close>

datatype outcome = Fulfilled | Rejected jsval

partial_function (option) pull_loop ::
  "('s, event, 'r) iterator \<Rightarrow> 's \<Rightarrow> event list \<Rightarrow> (outcome \<times> event list \<times> 's) option" where
  "pull_loop outputStream s reported =
     do { (r, s') \<leftarrow> outputStream s;
          case r of
            Done _ \<Rightarrow> Some (Fulfilled, reported, s')
          | Value v \<Rightarrow>
              (case message v of
                 Bailout err \<Rightarrow> Some (Rejected err, reported @ [v], s')
               | _ \<Rightarrow> pull_loop outputStream s' (reported @ [v])) }"

declare pull_loop.simps [code]

text \<open>Decimal digits of a number, for the template string of the final comment.\<close>

function string_of_nat :: "nat \<Rightarrow> string" where
  "string_of_nat n =
     (if n < 10 then [''0123456789'' ! n]
      else string_of_nat (n div 10) @ [''0123456789'' ! (n mod 10)])"
  by pat_completeness auto
termination
  by (relation "measure id") auto

declare string_of_nat.simps [simp del]

text \<open>The last two reports of \<^verbatim>\<open>start\<close> (lines 406 and 407).\<close>

definition final_reports :: "tally \<Rightarrow> event list" where
  "final_reports c =
     [\<lparr>message = Plan 1 (count' c), offset = None\<rparr>,
      \<lparr>message = Comment
         (if failure c > 0
          then ''failed '' @ string_of_nat (failure c) @ '' of '' @ string_of_nat (count' c) @ '' tests''
          else ''ok''),
       offset = None\<rparr>]"

definition finish :: "(outcome \<times> event list \<times> 's \<times> tally) \<Rightarrow> outcome \<times> event list" where
  "finish r =
     (case r of
        (Rejected err, reported, _) \<Rightarrow> (Rejected err, reported)
      | (Fulfilled, reported, _, c) \<Rightarrow> (Fulfilled, reported @ final_reports c))"

text \<open>
  \<^verbatim>\<open>start\<close> (lines 361 to 408) with the default arguments; the result is the outcome of
  the promise it returns and the list of objects it handed to the reporter, or \<open>None\<close> if
  that promise never settles. The first pull drops the title of the root unit. With no
  unit at all \<^verbatim>\<open>tests[0].next()\<close> is a TypeError (an object of the host, written
  \<open>Object 0\<close>); the module always registers the root.
\<close>

definition start :: "harness \<Rightarrow> (outcome \<times> event list) option" where
  "start h =
     (let reported = [\<lparr>message = Version 13, offset = None\<rparr>];
          c = \<lparr>count' = 0, success = 0, failure = 0\<rparr>
      in case tests h of
           [] \<Rightarrow> Some (Rejected (Object 0), reported)
         | root # others \<Rightarrow>
             do { (_, root') \<leftarrow> next' root;
                  let st = shift (root' # others);
                  if flatten h
                  then map_option finish
                         (pull_loop (numbered (flattened (combine next'))) ((st, ()), c) reported)
                  else map_option finish
                         (pull_loop (numbered (combine next')) (st, c) reported) })"

section \<open>Definitions used to state the properties\<close>

text \<open>
  The matcher that \<^verbatim>\<open>throws\<close> works with after lines 67 to 69 have swapped a string in
  second position with the third argument.
\<close>

definition matcher :: "jsval \<Rightarrow> jsval \<Rightarrow> jsval" where
  "matcher expected0 description0 = (if typeof expected0 = ''string'' then description0 else expected0)"

text \<open>
  \<^verbatim>\<open>throws\<close> has returned a result whose \<^verbatim>\<open>pass\<close> is true; an operation has raised.
\<close>

definition passes :: "(assertion, 'h) completion \<Rightarrow> bool" where
  "passes c = (case c of Normal r _ \<Rightarrow> pass r | Abrupt _ _ \<Rightarrow> False)"

definition raises :: "('a, 'h) completion \<Rightarrow> bool" where
  "raises c = (case c of Normal _ _ \<Rightarrow> False | Abrupt _ _ \<Rightarrow> True)"

text \<open>The functions \<^verbatim>\<open>() => { throw err }\<close> and \<^verbatim>\<open>() => v\<close>, as what a call of them does.\<close>

definition raising :: "jsval \<Rightarrow> 'h \<Rightarrow> (jsval, 'h) completion" where
  "raising err h = Abrupt err h"

definition returning :: "jsval \<Rightarrow> 'h \<Rightarrow> (jsval, 'h) completion" where
  "returning v h = Normal v h"

text \<open>
  A host for the concrete instances. Its state is a heap, the list of its objects by
  address. Of an object it records the prototype (\<^verbatim>\<open>null\<close> or a reference), the own data
  properties named \<^verbatim>\<open>message\<close>, \<^verbatim>\<open>constructor\<close> and \<^verbatim>\<open>prototype\<close> (the only ones that are
  read), the string it converts to (\<open>None\<close> when the conversion raises, as for an object
  without prototype), and for a regular expression the literal text it looks for, its flag
  \<^verbatim>\<open>g\<close> and its \<^verbatim>\<open>lastIndex\<close>.
\<close>

record object =
  proto :: jsval
  properties :: "(string \<times> jsval) list"
  as_string :: "string option"
  matching :: "(string \<times> bool \<times> nat) option"

type_synonym heap = "object list"

definition deref :: "heap \<Rightarrow> jsval \<Rightarrow> object option" where
  "deref h v =
     (case v of
        Object a \<Rightarrow> if a < length h then Some (h ! a) else None
      | Function a \<Rightarrow> if a < length h then Some (h ! a) else None
      | _ \<Rightarrow> None)"

text \<open>
  Reading the property \<open>p\<close> from the object \<open>v\<close> up its prototype chain, and whether the
  object \<open>P\<close> is on the prototype chain of \<open>v\<close>; the first argument bounds the length of
  the chain, and the number of objects of the heap is bound enough.
\<close>

fun lookup :: "nat \<Rightarrow> heap \<Rightarrow> jsval \<Rightarrow> string \<Rightarrow> jsval" where
  "lookup 0 h v p = Undefined"
| "lookup (Suc n) h v p =
     (case deref h v of
        None \<Rightarrow> Undefined
      | Some ob \<Rightarrow>
          (case map_of (properties ob) p of
             Some x \<Rightarrow> x
           | None \<Rightarrow> lookup n h (proto ob) p))"

fun on_chain :: "nat \<Rightarrow> heap \<Rightarrow> jsval \<Rightarrow> jsval \<Rightarrow> bool" where
  "on_chain 0 h v P = False"
| "on_chain (Suc n) h v P =
     (case deref h v of
        None \<Rightarrow> False
      | Some ob \<Rightarrow> proto ob \<noteq> Null \<and> (proto ob = P \<or> on_chain n h (proto ob) P))"

text \<open>
  Raising a TypeError: a new object is added to the heap, with \<^verbatim>\<open>TypeError.prototype\<close>
  (address 6 of every heap of this host) as prototype.
\<close>

definition type_error :: "string \<Rightarrow> heap \<Rightarrow> ('a, heap) completion" where
  "type_error msg h =
     Abrupt (Object (length h))
       (h @ [\<lparr>proto = Object 6, properties = [(''message'', String msg)],
              as_string = Some (''TypeError: '' @ msg), matching = None\<rparr>])"

text \<open>
  \<^verbatim>\<open>v instanceof c\<close>: a TypeError unless \<open>c\<close> can be called; false when \<open>v\<close> is not an
  object; otherwise \<^verbatim>\<open>c.prototype\<close> is read, it is a TypeError when that is not an object,
  and the answer is whether it is on the prototype chain of \<open>v\<close>.
\<close>

definition realm_instanceof :: "jsval \<Rightarrow> jsval \<Rightarrow> heap \<Rightarrow> (bool, heap) completion" where
  "realm_instanceof v c h =
     (case c of
        Function a \<Rightarrow>
          (if deref h c = None then type_error ''Right-hand side of instanceof is not callable'' h
           else if deref h v = None then Normal False h
           else (let P = lookup (Suc (length h)) h c ''prototype''
                 in if deref h P = None
                    then type_error ''Function has non-object prototype in instanceof check'' h
                    else Normal (on_chain (Suc (length h)) h v P) h))
      | _ \<Rightarrow> type_error ''Right-hand side of instanceof is not callable'' h)"

text \<open>
  Conversion to a string (numbers are integers that print in decimal notation), and the
  first position of a text in a string.
\<close>

definition decimal :: "int \<Rightarrow> string" where
  "decimal n = (if n < 0 then ''-'' @ string_of_nat (nat (- n)) else string_of_nat (nat n))"

definition to_string :: "heap \<Rightarrow> jsval \<Rightarrow> string option" where
  "to_string h v =
     (case v of
        Undefined \<Rightarrow> Some ''undefined''
      | Null \<Rightarrow> Some ''null''
      | Boolean b \<Rightarrow> Some (if b then ''true'' else ''false'')
      | Number n \<Rightarrow> Some (decimal n)
      | String s \<Rightarrow> Some s
      | _ \<Rightarrow> (case deref h v of None \<Rightarrow> None | Some ob \<Rightarrow> as_string ob))"

fun index_of :: "string \<Rightarrow> string \<Rightarrow> nat option" where
  "index_of t [] = (if t = [] then Some 0 else None)"
| "index_of t (x # xs) =
     (if take (length t) (x # xs) = t then Some 0 else map_option Suc (index_of t xs))"

text \<open>
  \<^verbatim>\<open>re.test(v)\<close>: a TypeError when \<open>re\<close> is not a regular expression or \<open>v\<close> cannot be
  converted to a string. The search starts at \<^verbatim>\<open>lastIndex\<close> with the flag \<^verbatim>\<open>g\<close> and at 0
  without it; with the flag, \<^verbatim>\<open>lastIndex\<close> becomes the end of the match, or 0 when there is
  none.
\<close>

definition realm_test :: "jsval \<Rightarrow> jsval \<Rightarrow> heap \<Rightarrow> (bool, heap) completion" where
  "realm_test re v h =
     (case (case deref h re of None \<Rightarrow> None | Some ob \<Rightarrow> matching ob) of
        None \<Rightarrow> type_error ''Receiver of test is not a RegExp'' h
      | Some (pattern, global, lastIndex) \<Rightarrow>
          (case to_string h v of
             None \<Rightarrow> type_error ''Cannot convert object to primitive value'' h
           | Some s \<Rightarrow>
               (let start_at = (if global then lastIndex else 0);
                    found = (if start_at \<le> length s
                             then map_option (\<lambda>i. start_at + i) (index_of pattern (drop start_at s))
                             else None);
                    set_lastIndex = (\<lambda>n.
                      if global
                      then (case re of
                              Object a \<Rightarrow> h[a := (h ! a)\<lparr>matching := Some (pattern, global, n)\<rparr>]
                            | _ \<Rightarrow> h)
                      else h)
                in case found of
                     None \<Rightarrow> Normal False (set_lastIndex 0)
                   | Some i \<Rightarrow> Normal True (set_lastIndex (i + length pattern)))))"

text \<open>
  \<^verbatim>\<open>v.p\<close> for \<open>p\<close> one of \<^verbatim>\<open>message\<close> and \<^verbatim>\<open>constructor\<close>: a TypeError on \<^verbatim>\<open>undefined\<close> and
  \<^verbatim>\<open>null\<close>; a Boolean, a number and a string are read through \<^verbatim>\<open>Boolean.prototype\<close>,
  \<^verbatim>\<open>Number.prototype\<close> and \<^verbatim>\<open>String.prototype\<close> (addresses 14, 10 and 12). And
  \<^verbatim>\<open>String(v)\<close>.
\<close>

definition realm_get :: "string \<Rightarrow> jsval \<Rightarrow> heap \<Rightarrow> (jsval, heap) completion" where
  "realm_get p v h =
     (case v of
        Undefined \<Rightarrow> type_error (''Cannot read properties of undefined (reading '' @ p @ '')'') h
      | Null \<Rightarrow> type_error (''Cannot read properties of null (reading '' @ p @ '')'') h
      | Boolean _ \<Rightarrow> Normal (lookup (Suc (length h)) h (Object 14) p) h
      | Number _ \<Rightarrow> Normal (lookup (Suc (length h)) h (Object 10) p) h
      | String _ \<Rightarrow> Normal (lookup (Suc (length h)) h (Object 12) p) h
      | _ \<Rightarrow> Normal (lookup (Suc (length h)) h v p) h)"

definition realm_to_String :: "jsval \<Rightarrow> heap \<Rightarrow> (jsval, heap) completion" where
  "realm_to_String v h =
     (case to_string h v of
        None \<Rightarrow> type_error ''Cannot convert object to primitive value'' h
      | Some s \<Rightarrow> Normal (String s) h)"

definition realm :: "heap host" where
  "realm = \<lparr>RegExp' = Function 9, instanceof = realm_instanceof, regexp_test = realm_test,
            message_of = realm_get ''message'', constructor_of = realm_get ''constructor'',
            to_String = realm_to_String\<rparr>"

text \<open>
  The heap of the instances. Addresses 0 to 15 hold the built-in prototypes and
  constructors: \<^verbatim>\<open>Object.prototype\<close> and \<^verbatim>\<open>Object\<close>, then in the same way \<^verbatim>\<open>Function\<close>,
  \<^verbatim>\<open>Error\<close>, \<^verbatim>\<open>TypeError\<close>, \<^verbatim>\<open>RegExp\<close>, \<^verbatim>\<open>Number\<close>, \<^verbatim>\<open>String\<close> and \<^verbatim>\<open>Boolean\<close>. After them
  come the objects of the instances, named below.
\<close>

definition prototype_object :: "jsval \<Rightarrow> nat \<Rightarrow> (string \<times> jsval) list \<Rightarrow> string \<Rightarrow> object" where
  "prototype_object parent constructor ps s =
     \<lparr>proto = parent, properties = (''constructor'', Function constructor) # ps,
      as_string = Some s, matching = None\<rparr>"

definition function_object :: "jsval \<Rightarrow> (string \<times> jsval) list \<Rightarrow> string \<Rightarrow> object" where
  "function_object parent ps s =
     \<lparr>proto = parent, properties = ps, as_string = Some s, matching = None\<rparr>"

definition regexp_object :: "string \<Rightarrow> bool \<Rightarrow> nat \<Rightarrow> object" where
  "regexp_object pattern global lastIndex =
     \<lparr>proto = Object 8, properties = [],
      as_string = Some (''/'' @ pattern @ (if global then ''/g'' else ''/'')),
      matching = Some (pattern, global, lastIndex)\<rparr>"

definition realm_heap :: heap where
  "realm_heap =
     [prototype_object Null 1 [] ''[object Object]'',
      function_object (Function 2) [(''prototype'', Object 0)] ''function Object() { [native code] }'',
      prototype_object (Object 0) 3 [] ''function () { [native code] }'',
      function_object (Function 2) [(''prototype'', Function 2)] ''function Function() { [native code] }'',
      prototype_object (Object 0) 5 [(''message'', String [])] ''Error'',
      function_object (Function 2) [(''prototype'', Object 4)] ''function Error() { [native code] }'',
      prototype_object (Object 4) 7 [(''message'', String [])] ''TypeError'',
      function_object (Function 5) [(''prototype'', Object 6)] ''function TypeError() { [native code] }'',
      prototype_object (Object 0) 9 [] ''/(?:)/'',
      function_object (Function 2) [(''prototype'', Object 8)] ''function RegExp() { [native code] }'',
      prototype_object (Object 0) 11 [] ''0'',
      function_object (Function 2) [(''prototype'', Object 10)] ''function Number() { [native code] }'',
      prototype_object (Object 0) 13 [] [],
      function_object (Function 2) [(''prototype'', Object 12)] ''function String() { [native code] }'',
      prototype_object (Object 0) 15 [] ''false'',
      function_object (Function 2) [(''prototype'', Object 14)] ''function Boolean() { [native code] }'',
      \<lparr>proto = Object 6, properties = [(''message'', String ''boom'')],
       as_string = Some ''TypeError: boom'', matching = None\<rparr>,
      \<lparr>proto = Null, properties = [(''message'', String ''boom'')],
       as_string = None, matching = None\<rparr>,
      regexp_object ''boom'' False 0,
      regexp_object ''boom'' True 20,
      function_object (Function 2) [] ''() => {}'',
      function_object (Function 2) [(''prototype'', Object 22)] ''function Failure() {}'',
      prototype_object (Object 0) 21 [] ''[object Object]'',
      function_object (Function 2) [(''prototype'', Object 24)] ''function Failure() {}'',
      prototype_object (Object 0) 23 [] ''[object Object]'',
      \<lparr>proto = Object 22, properties = [], as_string = Some ''[object Object]'', matching = None\<rparr>,
      regexp_object ''def'' False 0]"

text \<open>
  The values of the instances: the constructors \<^verbatim>\<open>Error\<close> and \<^verbatim>\<open>TypeError\<close>; the object
  \<^verbatim>\<open>new TypeError('boom')\<close>; an object without prototype that has a \<^verbatim>\<open>message\<close>,
  \<^verbatim>\<open>Object.assign(Object.create(null), {message: 'boom'})\<close>; the regular expressions
  \<^verbatim>\<open>/boom/\<close>, \<^verbatim>\<open>/boom/g\<close> (left with \<^verbatim>\<open>lastIndex\<close> 20 by an earlier use) and \<^verbatim>\<open>/def/\<close>; the
  function \<^verbatim>\<open>() => {}\<close>, which has no \<^verbatim>\<open>prototype\<close>; two functions declared as
  \<^verbatim>\<open>function Failure() {}\<close> in two places, and the object \<^verbatim>\<open>new Failure()\<close> built by the
  first.
\<close>

definition Error_constructor :: jsval where "Error_constructor = Function 5"
definition TypeError_constructor :: jsval where "TypeError_constructor = Function 7"
definition boom :: jsval where "boom = Object 16"
definition bare :: jsval where "bare = Object 17"
definition re_boom :: jsval where "re_boom = Object 18"
definition re_boom_used :: jsval where "re_boom_used = Object 19"
definition arrow :: jsval where "arrow = Function 20"
definition Failure_here :: jsval where "Failure_here = Function 21"
definition Failure_there :: jsval where "Failure_there = Function 23"
definition failure_here :: jsval where "failure_here = Object 25"
definition re_def :: jsval where "re_def = Object 26"

text \<open>The three buffer slots that the failure handler of a unit appends.\<close>

definition failure_events :: "string \<Rightarrow> jsval \<Rightarrow> nat \<Rightarrow> item list" where
  "failure_events d err off =
     [Event \<lparr>message = Assert
               \<lparr>pass = False, description = String d, operator = None, expected = None,
                actual = None, at' = None, id' = None, executionTime = None\<rparr>,
             offset = None\<rparr>,
      Event \<lparr>message = Comment ''Unhandled exception'', offset = None\<rparr>,
      Event \<lparr>message = Bailout err, offset = Some off\<rparr>]"

text \<open>Units used as concrete instances.\<close>

definition finished_unit :: test_instance where
  "finished_unit =
     Instance [] \<lparr>count = 2, pass' = True, description' = ''test 1'', executionTime' = Some 500\<rparr>
       True 1 [] 500 ResolvedResult (Some 1)"

definition idle_parent :: "item list \<Rightarrow> test_instance" where
  "idle_parent b =
     Instance b \<lparr>count = 1, pass' = True, description' = ''parent'', executionTime' = None\<rparr>
       False 0 [] 0 Pending None"

definition raising_unit :: test_instance where
  "raising_unit =
     tester 0 ''test 1'' [Check (ok (Boolean True) Undefined) ''at'', Throw (String ''boom'')]"

text \<open>
  A function that takes and returns a closure state, applied along a list: what \<^verbatim>\<open>map\<close>
  does to the items of a sequence, one pull after the other.
\<close>

fun thread :: "('a \<Rightarrow> 'c \<Rightarrow> 'b \<times> 'c) \<Rightarrow> 'a list \<Rightarrow> 'c \<Rightarrow> 'b list \<times> 'c" where
  "thread f [] c = ([], c)"
| "thread f (x # xs) c = (let (y, c1) = f x c; (ys, c2) = thread f xs c1 in (y # ys, c2))"

text \<open>
  The events that the renumbering function numbers and counts: \<^verbatim>\<open>assert\<close> and
  \<^verbatim>\<open>testAssert\<close> events whose offset is not positive; their \<^verbatim>\<open>data.id\<close> and
  \<^verbatim>\<open>data.pass\<close>.
\<close>

definition is_point :: "event \<Rightarrow> bool" where
  "is_point e = (\<not> offset_positive e \<and>
                 (type (message e) = ''assert'' \<or> type (message e) = ''testAssert''))"

definition point_id :: "event \<Rightarrow> nat option" where
  "point_id e = (case message e of Assert a \<Rightarrow> id' a | TestAssert a \<Rightarrow> id' a | _ \<Rightarrow> None)"

definition point_pass :: "event \<Rightarrow> bool" where
  "point_pass e = (case message e of Assert a \<Rightarrow> pass a | TestAssert a \<Rightarrow> pass a | _ \<Rightarrow> False)"

text \<open>
  The events that the presentation policy forwards: those at a positive offset, and those
  of kind title, assert, testAssert or comment. An event with the id \<open>n\<close> in its data.
  And the forwarded events \<open>es\<close> with their global ids, when \<open>n\<close> ids have been given
  before: the event at position \<open>i\<close> that is numbered gets \<open>n\<close> plus the number of
  numbered events up to and including itself, every other event is as it was.
\<close>

definition forwarded :: "event list \<Rightarrow> event list" where
  "forwarded xs =
     filter (\<lambda>e. offset_positive e \<or>
                 type (message e) \<in> {''title'', ''assert'', ''testAssert'', ''comment''}) xs"

definition with_id :: "nat \<Rightarrow> event \<Rightarrow> event" where
  "with_id n e =
     (case message e of
        Assert a \<Rightarrow> e\<lparr>message := Assert (a\<lparr>id' := Some n\<rparr>)\<rparr>
      | TestAssert a \<Rightarrow> e\<lparr>message := TestAssert (a\<lparr>id' := Some n\<rparr>)\<rparr>
      | _ \<Rightarrow> e)"

definition global_ids :: "nat \<Rightarrow> event list \<Rightarrow> event list" where
  "global_ids n es =
     map (\<lambda>(i, e). if is_point e
                    then with_id (n + length (filter is_point (take (Suc i) es))) e
                    else e)
       (enumerate 0 es)"

text \<open>
  The units of \<^verbatim>\<open>src/test/samples/async.js\<close>: \<^verbatim>\<open>t.ok(true, d)\<close>, and the two tests with
  their waits of 500 and 300 milliseconds; the events each of them yields.
\<close>

definition passing :: "string \<Rightarrow> action" where
  "passing d = Check (ok (Boolean True) (String d)) ''at''"

definition test_1 :: test_instance where
  "test_1 = tester 0 ''test 1'' [passing ''assert1'', Await 500, passing ''assert2'']"

definition test_2 :: test_instance where
  "test_2 = tester 0 ''test 2'' [passing ''assert3'', Await 300, passing ''assert4'']"

definition passed :: "string \<Rightarrow> nat \<Rightarrow> nat \<Rightarrow> event" where
  "passed d n off =
     \<lparr>message = Assert ((ok (Boolean True) (String d))\<lparr>id' := Some n\<rparr>), offset = Some off\<rparr>"

definition sample_events :: "string \<Rightarrow> string \<Rightarrow> string \<Rightarrow> nat \<Rightarrow> event list" where
  "sample_events t a b ms =
     [\<lparr>message = Title t, offset = Some 0\<rparr>, passed a 1 0, passed b 2 0,
      \<lparr>message = Plan 1 2, offset = Some 0\<rparr>, \<lparr>message = Time ms, offset = Some 0\<rparr>]"

text \<open>The first report of \<^verbatim>\<open>start\<close>, and the summary event of a passing sub test.\<close>

definition version_report :: event where
  "version_report = \<lparr>message = Version 13, offset = None\<rparr>"

definition summary_event :: "string \<Rightarrow> nat \<Rightarrow> nat \<Rightarrow> nat \<Rightarrow> event" where
  "summary_event d n ms off =
     \<lparr>message = TestAssert
        \<lparr>pass = True, description = String d, operator = None, expected = None,
         actual = None, at' = None, id' = Some n, executionTime = Some ms\<rparr>,
      offset = Some off\<rparr>"

text \<open>
  A run with one unit registered by \<^verbatim>\<open>test.test\<close>, its root unit, and the events the
  merged sequence yields after the root title has been dropped.
\<close>

definition hier_run :: harness where
  "hier_run = test_test ''test 1'' [passing ''assert1''] module_init"

definition hier_root :: test_instance where
  "hier_root = collector (Inr (tester 1 ''test 1'' [passing ''assert1''])) (tester 0 ''Root'' [])"

definition hier_events :: "event list" where
  "hier_events =
     [\<lparr>message = Title ''test 1'', offset = Some 1\<rparr>,
      passed ''assert1'' 1 1,
      \<lparr>message = Plan 1 1, offset = Some 1\<rparr>,
      \<lparr>message = Time 0, offset = Some 1\<rparr>,
      summary_event ''test 1'' 1 0 0,
      \<lparr>message = Plan 1 1, offset = Some 0\<rparr>,
      \<lparr>message = Time 0, offset = Some 0\<rparr>]"

text \<open>
  A run with one unit registered by \<^verbatim>\<open>test\<close>, whose body has a nested unit with two
  passing assertions and one passing assertion of its own; the events of the merged sequence.
\<close>

definition flat_run :: harness where
  "flat_run =
     test ''parent'' [Test ''nested'' [passing ''a1'', passing ''a2''], passing ''top''] module_init"

definition flat_parent :: test_instance where
  "flat_parent = tester 0 ''parent'' [Test ''nested'' [passing ''a1'', passing ''a2''], passing ''top'']"

definition flat_events :: "event list" where
  "flat_events =
     [\<lparr>message = Plan 1 0, offset = Some 0\<rparr>,
      \<lparr>message = Time 0, offset = Some 0\<rparr>,
      \<lparr>message = Title ''parent'', offset = Some 0\<rparr>,
      \<lparr>message = Title ''nested'', offset = Some 1\<rparr>,
      passed ''a1'' 1 1, passed ''a2'' 2 1,
      \<lparr>message = Plan 1 2, offset = Some 1\<rparr>,
      \<lparr>message = Time 0, offset = Some 1\<rparr>,
      summary_event ''nested'' 1 0 0,
      passed ''top'' 2 0,
      \<lparr>message = Plan 1 2, offset = Some 0\<rparr>,
      \<lparr>message = Time 0, offset = Some 0\<rparr>]"

text \<open>
  A run with two units registered by \<^verbatim>\<open>test.test\<close>, the first of which raises; a unit
  that has a \<^verbatim>\<open>bailout\<close> event in front.
\<close>

definition nested_failure_run :: harness where
  "nested_failure_run =
     test_test ''B'' [passing ''b1''] (test_test ''A'' [Throw (String ''boom'')] module_init)"

definition bailing_unit :: test_instance where
  "bailing_unit =
     Instance [Event \<lparr>message = Bailout (String ''boom''), offset = Some 1\<rparr>]
       \<lparr>count = 0, pass' = True, description' = ''A'', executionTime' = None\<rparr>
       False 1 [] 0 ResolvedUndefined (Some 1)"

text \<open>
  The aggregate pass value as the specification words it: the conjunction of the
  \<^verbatim>\<open>pass\<close> of every assertion result collected directly in the unit and of the aggregate
  pass value of every nested unit. A body stops at the first \<open>Throw\<close>.
\<close>

fun spec_aggregatePass :: "action list \<Rightarrow> bool" where
  "spec_aggregatePass [] = True"
| "spec_aggregatePass (Check r loc # spec) = (pass r \<and> spec_aggregatePass spec)"
| "spec_aggregatePass (Test d b # spec) = (spec_aggregatePass b \<and> spec_aggregatePass spec)"
| "spec_aggregatePass (Await ms # spec) = spec_aggregatePass spec"
| "spec_aggregatePass (Throw err # spec) = True"

text \<open>
  The same value read off a unit in any state: the \<^verbatim>\<open>result.pass\<close> it has so far, the
  sub tests still in its buffer, and the part of the body still to run.
\<close>

fun final_pass :: "test_instance \<Rightarrow> bool" and slots_pass :: "item list \<Rightarrow> bool" where
  "final_pass (Instance b r d off td el co i) =
     (pass' r \<and> slots_pass b \<and> (d \<or> co \<noteq> Pending \<or> spec_aggregatePass td))"
| "slots_pass [] = True"
| "slots_pass (Event e # b) = slots_pass b"
| "slots_pass (SubTest t # b) = (final_pass t \<and> slots_pass b)"

text \<open>No body of the unit, nested ones included, raises.\<close>

fun no_throw :: "action list \<Rightarrow> bool" where
  "no_throw [] = True"
| "no_throw (Check r loc # spec) = no_throw spec"
| "no_throw (Test d b # spec) = (no_throw b \<and> no_throw spec)"
| "no_throw (Await ms # spec) = no_throw spec"
| "no_throw (Throw err # spec) = False"

text \<open>
  A bound on the calls of \<^verbatim>\<open>next\<close> that draining a unit takes, and the units all of
  whose bodies, nested ones included, have either settled through the success handler or
  are still running and will not raise.
\<close>

fun body_pulls :: "action list \<Rightarrow> nat" where
  "body_pulls [] = 0"
| "body_pulls (Check r loc # spec) = 1 + body_pulls spec"
| "body_pulls (Test d b # spec) = 6 + body_pulls b + body_pulls spec"
| "body_pulls (Await ms # spec) = body_pulls spec"
| "body_pulls (Throw err # spec) = 0"

fun pulls :: "test_instance \<Rightarrow> nat" and slots_pulls :: "item list \<Rightarrow> nat" where
  "pulls (Instance b r d off td el co i) =
     slots_pulls b + (if co = Pending \<and> \<not> d then body_pulls td + 3 else 0)"
| "slots_pulls [] = 0"
| "slots_pulls (Event e # b) = 1 + slots_pulls b"
| "slots_pulls (SubTest t # b) = 2 + pulls t + slots_pulls b"

fun sound :: "test_instance \<Rightarrow> bool" and sound_slots :: "item list \<Rightarrow> bool" where
  "sound (Instance b r d off td el co i) =
     (sound_slots b \<and>
      ((d \<and> co = ResolvedResult) \<or> (\<not> d \<and> co = Pending \<and> no_throw td)))"
| "sound_slots [] = True"
| "sound_slots (Event e # b) = sound_slots b"
| "sound_slots (SubTest t # b) = (sound t \<and> sound_slots b)"

text \<open>A body with a passing assertion, a nested unit that fails, and a wait.\<close>

definition mixed_spec :: "action list" where
  "mixed_spec =
     [Check (ok (Boolean True) Undefined) ''at'', Test ''nested'' [Check (fail Undefined) ''at''], Await 10]"

text \<open>
  The sequence of a unit, written down from its state: the number of items a body
  collects and the milliseconds it waits; the events a body still to run will give, from
  the current count and elapsed time (an assertion gives its event, a nested unit gives
  its title, its own events and then its summary event at the parent's offset, and the end
  of the body gives the plan and the time); the summary a unit ends with; and the events
  of a unit: those of its buffer slots in order, then those of the rest of its body.
\<close>

fun collects :: "action list \<Rightarrow> nat" where
  "collects [] = 0"
| "collects (Check r loc # spec) = 1 + collects spec"
| "collects (Test d b # spec) = 1 + collects spec"
| "collects (Await ms # spec) = collects spec"
| "collects (Throw err # spec) = 0"

fun waits :: "action list \<Rightarrow> nat" where
  "waits [] = 0"
| "waits (Check r loc # spec) = waits spec"
| "waits (Test d b # spec) = waits spec"
| "waits (Await ms # spec) = ms + waits spec"
| "waits (Throw err # spec) = 0"

definition summary_event_of :: "result \<Rightarrow> nat option \<Rightarrow> nat \<Rightarrow> event" where
  "summary_event_of s i off =
     \<lparr>message = TestAssert
        \<lparr>pass = pass' s, description = String (description' s), operator = None,
         expected = None, actual = None, at' = None, id' = i, executionTime = executionTime' s\<rparr>,
      offset = Some off\<rparr>"

fun body_events :: "nat \<Rightarrow> nat \<Rightarrow> nat \<Rightarrow> action list \<Rightarrow> event list" where
  "body_events off n el [] =
     [\<lparr>message = Plan 1 n, offset = Some off\<rparr>, \<lparr>message = Time el, offset = Some off\<rparr>]"
| "body_events off n el (Check r loc # spec) =
     \<lparr>message = Assert ((assertMethodHook r loc)\<lparr>id' := Some (n + 1)\<rparr>), offset = Some off\<rparr> #
     body_events off (n + 1) el spec"
| "body_events off n el (Test d b # spec) =
     (\<lparr>message = Title d, offset = Some (off + 1)\<rparr> # body_events (off + 1) 0 0 b) @
     [summary_event_of
        \<lparr>count = collects b, pass' = spec_aggregatePass b, description' = d,
         executionTime' = Some (waits b)\<rparr> (Some (n + 1)) off] @
     body_events off (n + 1) el spec"
| "body_events off n el (Await ms # spec) = body_events off n (el + ms) spec"
| "body_events off n el (Throw err # spec) = []"

definition running :: "test_instance \<Rightarrow> bool" where
  "running u = (coRoutine u = Pending \<and> \<not> done' u)"

definition summary_of :: "test_instance \<Rightarrow> result" where
  "summary_of u =
     (result u)\<lparr>count := count (result u) + (if running u then collects (todo u) else 0),
                pass' := final_pass u,
                executionTime' := (if running u then Some (elapsed u + waits (todo u))
                                   else executionTime' (result u))\<rparr>"

fun events_of :: "test_instance \<Rightarrow> event list" and slots_events :: "nat \<Rightarrow> item list \<Rightarrow> event list" where
  "events_of (Instance b r d off td el co i) =
     slots_events off b @ (if co = Pending \<and> \<not> d then body_events off (count r) el td else [])"
| "slots_events off [] = []"
| "slots_events off (Event e # b) = e # slots_events off b"
| "slots_events off (SubTest t # b) =
     events_of t @ [summary_event_of (summary_of t) (instance_id t) off] @ slots_events off b"

text \<open>
  Bodies run on their own while the scheduler pulls: \<open>advance u w\<close> when \<open>w\<close> is \<open>u\<close> after one
  step of the body of the unit itself or of a unit in one of its buffer slots, at any depth.
\<close>

inductive advance :: "test_instance \<Rightarrow> test_instance \<Rightarrow> bool" where
  here: "advance u (progress u)"
| below: "buffer u = b1 @ SubTest t # b2 \<Longrightarrow> advance t t' \<Longrightarrow>
          advance u (set_buffer (b1 @ SubTest t' # b2) u)"

code_pred advance .

text \<open>
  A run with one unit registered by \<^verbatim>\<open>test\<close> whose body raises, and that unit once its
  title and its failing \<^verbatim>\<open>assert\<close> have been pulled.
\<close>

definition top_failure_run :: harness where
  "top_failure_run = test ''A'' [Throw (String ''boom'')] module_init"

definition failed_A :: test_instance where
  "failed_A =
     Instance [Event \<lparr>message = Comment ''Unhandled exception'', offset = None\<rparr>,
               Event \<lparr>message = Bailout (String ''boom''), offset = Some 0\<rparr>]
       \<lparr>count = 0, pass' = True, description' = ''A'', executionTime' = None\<rparr>
       False 0 [] 0 ResolvedUndefined None"

section \<open>Basic facts\<close>

lemmas next'_induct = next'.raw_induct[rotated 1, consumes 1, case_names step]
lemmas filter'_induct = filter'.raw_induct[rotated 1, consumes 1, case_names step]
lemmas combine_induct = combine.raw_induct[rotated 1, consumes 1, case_names step]

lemma buffer_set_buffer [simp]: "buffer (set_buffer b u) = b"
  by (cases u) simp

lemma set_buffer_set_buffer [simp]: "set_buffer b (set_buffer b' u) = set_buffer b u"
  by (cases u) simp

lemma set_todo_fields [simp]:
  "unit_offset (set_todo td u) = unit_offset u" "done' (set_todo td u) = done' u"
  "result (set_todo td u) = result u" "buffer (set_todo td u) = buffer u"
  "coRoutine (set_todo td u) = coRoutine u"
  by (cases u; simp)+

subsection \<open>Draining\<close>

lemma drain_same_first: "iterator s = iterator s2 \<Longrightarrow> drain iterator s = drain iterator s2"
  by (subst drain.simps, subst (2) drain.simps) simp

lemma drain_Value:
  "iterator s = Some (Value x, s1) \<Longrightarrow>
   drain iterator s = map_option (\<lambda>(xs, v, s2). (x # xs, v, s2)) (drain iterator s1)"
  by (subst drain.simps) (auto split: bind_splits)

lemma drain_Done: "iterator s = Some (Done v, s1) \<Longrightarrow> drain iterator s = Some ([], v, s1)"
  by (subst drain.simps) simp

lemma drain_None: "iterator s = None \<Longrightarrow> drain iterator s = None"
  by (subst drain.simps) simp

subsection \<open>One pull on a unit\<close>

lemma next'_Event: "buffer u = Event e # rest \<Longrightarrow> next' u = Some (Value e, set_buffer rest u)"
  by (subst next'.simps) simp

lemma next'_SubTest_Value:
  "buffer u = SubTest delegate # rest \<Longrightarrow> next' delegate = Some (Value v, delegate') \<Longrightarrow>
   next' u = Some (Value v, set_buffer (SubTest delegate' # rest) u)"
  by (subst next'.simps) simp

lemma next'_SubTest_Done:
  "buffer u = SubTest delegate # rest \<Longrightarrow> next' delegate = Some (Done summary, delegate') \<Longrightarrow>
   subTestAssertion summary delegate' u = (sub, u') \<Longrightarrow>
   next' u = next' (set_buffer (Event sub # rest) u')"
  by (subst next'.simps) simp

lemma next'_empty_pending: "buffer u = [] \<Longrightarrow> \<not> done' u \<Longrightarrow> next' u = next' (settle u)"
  by (subst next'.simps) simp

lemma next'_empty_done: "buffer u = [] \<Longrightarrow> done' u \<Longrightarrow> next' u = Some (Done (result u), u)"
  by (subst next'.simps) simp

text \<open>
  A unit whose body has settled without \<^verbatim>\<open>done\<close> and whose buffer is empty: the pull
  awaits the resolved \<^verbatim>\<open>coRoutine\<close> and calls itself again on the same state, for ever.
\<close>

lemma next'_stuck_aux:
  assumes "next' u = Some y"
  shows "\<not> (buffer u = [] \<and> \<not> done' u \<and> coRoutine u \<noteq> Pending)"
  using assms
proof (induct rule: next'_induct)
  case (step nxt u y)
  show ?case
  proof
    assume s: "buffer u = [] \<and> \<not> done' u \<and> coRoutine u \<noteq> Pending"
    then have "settle u = u" by (cases "coRoutine u") (simp_all add: settle_def)
    with step s show False by (cases y) auto
  qed
qed

lemma next'_stuck:
  "buffer u = [] \<Longrightarrow> \<not> done' u \<Longrightarrow> coRoutine u \<noteq> Pending \<Longrightarrow> next' u = None"
  using next'_stuck_aux [of u] by (cases "next' u") auto

lemma subTestAssertion_event:
  "subTestAssertion summary delegate u = (sub, u') \<Longrightarrow>
   sub = \<lparr>message = TestAssert
            \<lparr>pass = pass' summary, description = String (description' summary), operator = None,
             expected = None, actual = None, at' = None, id' = instance_id delegate,
             executionTime = executionTime' summary\<rparr>,
          offset = Some (unit_offset u)\<rparr> \<and>
   u' = set_result ((result u)\<lparr>pass' := pass' (result u) \<and> pass' summary\<rparr>) u"
  by (auto simp: subTestAssertion_def createAssertion_def)

subsection \<open>The body\<close>

lemma on_rejected_eq:
  "on_rejected err (Instance b r d off td el co i) =
     Instance (b @ failure_events (description' r) err off) r d off td el ResolvedUndefined i"
  by (simp add: on_rejected_def push_def failure_events_def Let_def)

lemma run_body_append:
  "\<forall>e. Throw e \<notin> set pre \<Longrightarrow> run_body (pre @ spec) u = run_body spec (fold exec pre u)"
proof (induction pre arbitrary: u)
  case Nil
  then show ?case by simp
next
  case (Cons a pre)
  then show ?case by (cases a) auto
qed

lemma exec_keeps_description: "description' (result (exec a u)) = description' (result u)"
  by (cases a; cases u) (auto simp: collector_def createAssertion_def push_def Let_def)

lemma exec_keeps_fields:
  "unit_offset (exec a u) = unit_offset u \<and> done' (exec a u) = done' u \<and>
   todo (exec a u) = todo u \<and> coRoutine (exec a u) = coRoutine u"
  by (cases a; cases u) (auto simp: collector_def createAssertion_def push_def Let_def)

lemma fold_exec_keeps:
  "unit_offset (fold exec pre u) = unit_offset u \<and> done' (fold exec pre u) = done' u \<and>
   todo (fold exec pre u) = todo u \<and> coRoutine (fold exec pre u) = coRoutine u \<and>
   description' (result (fold exec pre u)) = description' (result u)"
  by (induction pre arbitrary: u) (simp_all add: exec_keeps_fields exec_keeps_description)

subsection \<open>The end of a combined sequence\<close>

lemma filter'_Done_aux:
  assumes "filter' p it s = Some y"
  shows "\<forall>v. fst y = Done v \<longrightarrow> v = None"
  using assms
proof (induct rule: filter'_induct)
  case (step f p it s y)
  then show ?case
    by (cases y) (auto split: bind_splits iter_result.splits if_splits)
qed

lemma combine_Done_aux:
  assumes "combine it st = Some y"
  shows "\<forall>v. fst y = Done v \<longrightarrow> v = None"
  using assms
proof (induct rule: combine_induct)
  case (step comb it st y)
  then show ?case
    by (cases y) (auto split: bind_splits iter_result.splits if_splits option.splits prod.splits)
qed

lemma map'_Done: "map' f it sc = Some (Done v, sc') \<Longrightarrow> v = None"
  by (auto simp: map'_def split: bind_splits iter_result.splits prod.splits)

lemma pass_assertMethodHook: "pass (assertMethodHook r loc) = pass r"
  by (simp add: assertMethodHook_def)

subsection \<open>Draining through the combinators\<close>

lemma drain_Some_Nil: "drain it s = Some ([], r, s') \<Longrightarrow> it s = Some (Done r, s')"
  by (subst (asm) drain.simps) (auto split: bind_splits iter_result.splits)

lemma drain_Some_Cons:
  "drain it s = Some (x # xs, r, s') \<Longrightarrow>
   \<exists>s1. it s = Some (Value x, s1) \<and> drain it s1 = Some (xs, r, s')"
  by (subst (asm) drain.simps) (auto split: bind_splits iter_result.splits)

lemma drain_fst: "map_option fst (drain it s) = Some xs \<Longrightarrow> \<exists>r c'. drain it s = Some (xs, r, c')"
  by (cases "drain it s") auto

lemma filter'_Value_keep:
  "it s = Some (Value x, s1) \<Longrightarrow> p x \<Longrightarrow> filter' p it s = Some (Value x, s1)"
  by (subst filter'.simps) simp

lemma filter'_Value_skip:
  "it s = Some (Value x, s1) \<Longrightarrow> \<not> p x \<Longrightarrow> filter' p it s = filter' p it s1"
  by (subst filter'.simps) simp

lemma filter'_Done: "it s = Some (Done r, s1) \<Longrightarrow> filter' p it s = Some (Done None, s1)"
  by (subst filter'.simps) simp

lemma drain_filter':
  "drain it s = Some (xs, r, s') \<Longrightarrow> drain (filter' p it) s = Some (filter p xs, None, s')"
proof (induction xs arbitrary: s)
  case Nil
  then have "it s = Some (Done r, s')" by (rule drain_Some_Nil)
  then have "filter' p it s = Some (Done None, s')" by (rule filter'_Done)
  then show ?case by (simp add: drain_Done)
next
  case (Cons x xs)
  then obtain s1 where s1: "it s = Some (Value x, s1)" "drain it s1 = Some (xs, r, s')"
    using drain_Some_Cons by fastforce
  show ?case
  proof (cases "p x")
    case True
    then have "filter' p it s = Some (Value x, s1)" using s1(1) by (simp add: filter'_Value_keep)
    then show ?thesis using True Cons.IH [OF s1(2)]
      by (simp add: drain_Value)
  next
    case False
    then have "drain (filter' p it) s = drain (filter' p it) s1"
      using s1 by (intro drain_same_first) (simp add: filter'_Value_skip)
    then show ?thesis using False Cons.IH [OF s1(2)] by simp
  qed
qed

lemma drain_map':
  "drain it s = Some (xs, r, s') \<Longrightarrow>
   drain (map' f it) (s, c) = Some (fst (thread f xs c), None, (s', snd (thread f xs c)))"
proof (induction xs arbitrary: s c)
  case Nil
  then have "it s = Some (Done r, s')" by (rule drain_Some_Nil)
  then have "map' f it (s, c) = Some (Done None, (s', c))"
    by (simp add: map'_def)
  then show ?case by (simp add: drain_Done)
next
  case (Cons x xs)
  then obtain s1 where s1: "it s = Some (Value x, s1)" "drain it s1 = Some (xs, r, s')"
    using drain_Some_Cons by fastforce
  obtain y c1 where f: "f x c = (y, c1)" by (cases "f x c")
  have "map' f it (s, c) = Some (Value y, (s1, c1))"
    using s1 f by (simp add: map'_def)
  then show ?case using Cons.IH [OF s1(2), of c1] f
    by (simp add: drain_Value split: prod.splits)
qed

lemma combine_None: "combine it (None, ps) = Some (Done None, (None, ps))"
  by (subst combine.simps) simp

lemma combine_Value:
  "it c = Some (Value x, c1) \<Longrightarrow> combine it (Some c, ps) = Some (Value x, (Some c1, ps))"
  by (subst combine.simps) simp

lemma combine_Done: "it c = Some (Done r, c1) \<Longrightarrow> combine it (Some c, ps) = combine it (shift ps)"
  by (subst combine.simps) simp

lemma drain_combine_one:
  "drain it c = Some (xs, r, c') \<Longrightarrow>
   drain (combine it) (Some c, ps) =
     map_option (\<lambda>(ys, v, st). (xs @ ys, v, st)) (drain (combine it) (shift ps))"
proof (induction xs arbitrary: c)
  case Nil
  then have "it c = Some (Done r, c')" by (rule drain_Some_Nil)
  then have "combine it (Some c, ps) = combine it (shift ps)" by (rule combine_Done)
  then have "drain (combine it) (Some c, ps) = drain (combine it) (shift ps)"
    by (rule drain_same_first)
  then show ?case by (simp add: option.map_ident case_prod_beta)
next
  case (Cons x xs)
  then obtain c1 where c1: "it c = Some (Value x, c1)" "drain it c1 = Some (xs, r, c')"
    using drain_Some_Cons by fastforce
  have "combine it (Some c, ps) = Some (Value x, (Some c1, ps))"
    using c1(1) by (rule combine_Value)
  then show ?case using Cons.IH [OF c1(2)]
    by (simp add: drain_Value option.map_comp comp_def case_prod_beta)
qed

lemma drain_combine_all:
  "list_all2 (\<lambda>c xs. \<exists>r c'. drain it c = Some (xs, r, c')) cs xss \<Longrightarrow>
   drain (combine it) (shift cs) = Some (concat xss, None, (None, []))"
proof (induction cs xss rule: list_all2_induct)
  case Nil
  then show ?case by (simp add: drain_Done combine_None)
next
  case (Cons c xs cs xss)
  then show ?case by (auto simp: drain_combine_one)
qed

subsection \<open>The renumbering function\<close>

lemma renumber_unchanged: "\<not> is_point e \<Longrightarrow> renumber e c = (e, c)"
  by (auto simp: renumber_def is_point_def)

lemma renumber_point:
  "is_point e \<Longrightarrow>
   point_id (fst (renumber e c)) = Some (count' c + 1) \<and>
   count' (snd (renumber e c)) = count' c + 1 \<and>
   success (snd (renumber e c)) = success c + (if point_pass e then 1 else 0) \<and>
   failure (snd (renumber e c)) = failure c + (if point_pass e then 0 else 1)"
  by (cases "message e") (auto simp: renumber_def is_point_def point_id_def point_pass_def Let_def)

lemma renumber_keeps:
  "offset (fst (renumber e c)) = offset e \<and>
   type (message (fst (renumber e c))) = type (message e) \<and>
   point_pass (fst (renumber e c)) = point_pass e"
  by (cases "message e") (auto simp: renumber_def point_pass_def Let_def)

lemma renumber_keeps_is_point: "is_point (fst (renumber e c)) = is_point e"
  by (simp add: is_point_def offset_positive_def renumber_keeps)

lemma renumber_keeps_positive: "offset_positive (fst (renumber e c)) = offset_positive e"
  by (simp add: offset_positive_def renumber_keeps)

lemma positive_not_point: "offset_positive e \<Longrightarrow> \<not> is_point e"
  by (simp add: is_point_def)

lemma thread_renumber:
  "map point_id (filter is_point (fst (thread renumber xs c))) =
     map Some [count' c + 1 ..< count' c + 1 + length (filter is_point xs)] \<and>
   count' (snd (thread renumber xs c)) = count' c + length (filter is_point xs) \<and>
   success (snd (thread renumber xs c)) = success c + length (filter (\<lambda>e. is_point e \<and> point_pass e) xs) \<and>
   failure (snd (thread renumber xs c)) = failure c + length (filter (\<lambda>e. is_point e \<and> \<not> point_pass e) xs) \<and>
   filter offset_positive (fst (thread renumber xs c)) = filter offset_positive xs \<and>
   map (\<lambda>e. (type (message e), offset e)) (fst (thread renumber xs c)) =
     map (\<lambda>e. (type (message e), offset e)) xs"
proof (induction xs arbitrary: c)
  case Nil
  then show ?case by simp
next
  case (Cons x xs)
  obtain y c1 where r: "renumber x c = (y, c1)" by (cases "renumber x c")
  show ?case
  proof (cases "is_point x")
    case True
    have p: "point_id y = Some (count' c + 1) \<and> count' c1 = count' c + 1 \<and>
       success c1 = success c + (if point_pass x then 1 else 0) \<and>
       failure c1 = failure c + (if point_pass x then 0 else 1)"
      using renumber_point [OF True, of c] r by simp
    have k: "is_point y \<and> \<not> offset_positive y \<and> \<not> offset_positive x \<and>
             type (message y) = type (message x) \<and> offset y = offset x"
      using renumber_keeps_is_point [of x c] renumber_keeps_positive [of x c]
        renumber_keeps [of x c] True r
      by (auto simp: is_point_def)
    have u: "[count' c + 1 ..< count' c + 1 + Suc (length (filter is_point xs))] =
             (count' c + 1) # [count' c1 + 1 ..< count' c1 + 1 + length (filter is_point xs)]"
    proof -
      have "[count' c + 1 ..< count' c + 1 + Suc (length (filter is_point xs))] =
            (count' c + 1) # [Suc (count' c + 1) ..< count' c + 1 + Suc (length (filter is_point xs))]"
        by (rule upt_conv_Cons) simp
      then show ?thesis using p by simp
    qed
    show ?thesis
      using Cons.IH [of c1] r True p k u
      by (simp add: case_prod_beta Let_def)
  next
    case False
    then have e: "y = x \<and> c1 = c" using renumber_unchanged [of x c] r by simp
    show ?thesis
      using Cons.IH [of c] r False e
      by (simp add: case_prod_beta Let_def)
  qed
qed

lemma thread_renumber_kinds:
  "map (\<lambda>e. (type (message e), offset e)) (fst (thread renumber xs c)) =
     map (\<lambda>e. (type (message e), offset e)) xs"
  using thread_renumber [of xs c] by blast

lemma thread_renumber_positive:
  "filter offset_positive (fst (thread renumber xs c)) = filter offset_positive xs"
  using thread_renumber [of xs c] by blast

lemma thread_renumber_counts:
  "length (filter is_point (fst (thread renumber xs c))) = length (filter is_point xs) \<and>
   length (filter (\<lambda>e. is_point e \<and> point_pass e) (fst (thread renumber xs c))) =
     length (filter (\<lambda>e. is_point e \<and> point_pass e) xs) \<and>
   length (filter (\<lambda>e. is_point e \<and> \<not> point_pass e) (fst (thread renumber xs c))) =
     length (filter (\<lambda>e. is_point e \<and> \<not> point_pass e) xs)"
proof (induction xs arbitrary: c)
  case Nil
  then show ?case by simp
next
  case (Cons x xs)
  obtain y c1 where r: "renumber x c = (y, c1)" by (cases "renumber x c")
  have k: "is_point y = is_point x \<and> point_pass y = point_pass x"
    using renumber_keeps_is_point [of x c] renumber_keeps [of x c] r by simp
  show ?case using Cons.IH [of c1] r k by (simp add: case_prod_beta)
qed

lemma in_thread_renumber:
  assumes "e \<in> set (fst (thread renumber k c))"
  shows "\<exists>x\<in>set k. type (message x) = type (message e) \<and> offset x = offset e"
proof -
  have t: "map (\<lambda>e. (type (message e), offset e)) (fst (thread renumber k c)) =
           map (\<lambda>e. (type (message e), offset e)) k"
    by (rule thread_renumber_kinds)
  from assms have "(type (message e), offset e) \<in>
      set (map (\<lambda>e. (type (message e), offset e)) (fst (thread renumber k c)))"
    by force
  then have "(type (message e), offset e) \<in> set (map (\<lambda>e. (type (message e), offset e)) k)"
    by (simp only: t)
  then show ?thesis by auto
qed

lemma keep_iff:
  "keep e \<longleftrightarrow> offset_positive e \<or>
     type (message e) \<in> {''title'', ''assert'', ''testAssert'', ''comment''}"
  by (auto simp: keep_def toKeep_def)

lemma renumber_with_id:
  "is_point e \<Longrightarrow> fst (renumber e c) = with_id (count' c + 1) e"
  by (cases "message e") (auto simp: renumber_def is_point_def with_id_def Let_def)

lemma thread_renumber_global_ids:
  "fst (thread renumber xs c) = global_ids (count' c) xs"
proof (induction xs arbitrary: c)
  case Nil
  then show ?case by (simp add: global_ids_def)
next
  case (Cons x xs)
  obtain y c1 where r: "renumber x c = (y, c1)" by (cases "renumber x c")
  have e: "enumerate (Suc 0) xs = map (\<lambda>(i, e). (Suc i, e)) (enumerate 0 xs)"
    by (simp add: enumerate_Suc_eq apfst_def map_prod_def)
  show ?case
  proof (cases "is_point x")
    case True
    have y: "y = with_id (count' c + 1) x" and c1: "count' c1 = count' c + 1"
      using renumber_with_id [OF True, of c] renumber_point [OF True, of c] r by simp_all
    show ?thesis
      using Cons.IH [of c1] r True y c1
      by (simp add: global_ids_def e case_prod_beta Let_def comp_def)
  next
    case False
    then have "y = x \<and> c1 = c" using renumber_unchanged [of x c] r by simp
    then show ?thesis
      using Cons.IH [of c] r False
      by (simp add: global_ids_def e case_prod_beta Let_def comp_def)
  qed
qed

lemma thread_renumber_tally:
  "snd (thread renumber xs (c::tally)) =
     \<lparr>count' = count' c + length (filter is_point xs),
      success = success c + length (filter (\<lambda>e. is_point e \<and> point_pass e) xs),
      failure = failure c + length (filter (\<lambda>e. is_point e \<and> \<not> point_pass e) xs)\<rparr>"
  using thread_renumber [of xs c] by simp

lemma filter_keep_forwarded: "filter keep xs = forwarded xs"
  unfolding forwarded_def by (rule filter_cong) (simp_all add: keep_iff)

lemma kept_after_flatten:
  "map (\<lambda>e. type (message e))
      (filter keep (map (\<lambda>e. e\<lparr>offset := Some 0\<rparr>) (filter not_testAssert xs))) =
   filter (\<lambda>t. t \<in> {''title'', ''assert'', ''comment''}) (map (\<lambda>e. type (message e)) xs)"
proof (induction xs)
  case Nil
  then show ?case by simp
next
  case (Cons x xs)
  have k: "keep (x\<lparr>offset := Some 0\<rparr>) \<longleftrightarrow>
           type (message x) \<in> {''title'', ''assert'', ''testAssert'', ''comment''}"
    by (simp add: keep_iff offset_positive_def)
  show ?case
  proof (cases "not_testAssert x")
    case True
    then show ?thesis using Cons k by (simp add: not_testAssert_def)
  next
    case False
    then show ?thesis using Cons by (simp add: not_testAssert_def)
  qed
qed

lemma bailout_not_kept:
  "message b = Bailout err \<Longrightarrow> \<not> offset_positive b \<Longrightarrow> \<not> keep b"
  by (simp add: keep_iff)

lemma numbered_bailout:
  assumes "iterator s = Some (Value b, s')" and "message b = Bailout err" and "offset_positive b"
  shows "numbered iterator (s, c) = Some (Value b, (s', c))"
proof -
  have "keep b" using assms(3) by (simp add: keep_def)
  then have "filter' keep iterator s = Some (Value b, s')"
    using assms(1) by (simp add: filter'_Value_keep)
  moreover have "renumber b c = (b, c)"
    using assms(3) by (simp add: renumber_def)
  ultimately show ?thesis by (simp add: numbered_def map'_def)
qed

subsection \<open>The pull loop and the two forms of the output stream\<close>

lemma pull_loop_Done: "out s = Some (Done r, s') \<Longrightarrow> pull_loop out s acc = Some (Fulfilled, acc, s')"
  by (subst pull_loop.simps) simp

lemma pull_loop_Bailout:
  "out s = Some (Value b, s') \<Longrightarrow> message b = Bailout err \<Longrightarrow>
   pull_loop out s acc = Some (Rejected err, acc @ [b], s')"
  by (subst pull_loop.simps) simp

lemma pull_loop_Value:
  "out s = Some (Value v, s') \<Longrightarrow> type (message v) \<noteq> ''bailout'' \<Longrightarrow>
   pull_loop out s acc = pull_loop out s' (acc @ [v])"
  by (subst pull_loop.simps) (cases "message v"; simp)

lemma pull_loop_drain:
  "drain out s = Some (ys, r, s') \<Longrightarrow> \<forall>e\<in>set ys. type (message e) \<noteq> ''bailout'' \<Longrightarrow>
   pull_loop out s acc = Some (Fulfilled, acc @ ys, s')"
proof (induction ys arbitrary: s acc)
  case Nil
  then have "out s = Some (Done r, s')" by (intro drain_Some_Nil)
  then show ?case by (simp add: pull_loop_Done)
next
  case (Cons y ys)
  then obtain s1 where s1: "out s = Some (Value y, s1)" "drain out s1 = Some (ys, r, s')"
    using drain_Some_Cons by fastforce
  have "pull_loop out s acc = pull_loop out s1 (acc @ [y])"
    using s1(1) Cons.prems(2) by (intro pull_loop_Value) simp_all
  then show ?case using Cons.IH [OF s1(2), of "acc @ [y]"] Cons.prems(2) by simp
qed

lemma drain_numbered:
  "drain it s = Some (xs, r, s') \<Longrightarrow>
   drain (numbered it) (s, c) =
     Some (fst (thread renumber (filter keep xs) c), None, (s', snd (thread renumber (filter keep xs) c)))"
  unfolding numbered_def by (rule drain_map' [OF drain_filter'])

lemma thread_zero_offset:
  "thread zero_offset xs c = (map (\<lambda>e. e\<lparr>offset := Some 0\<rparr>) xs, c)"
  by (induction xs arbitrary: c) (simp_all add: zero_offset_def)

lemma drain_flattened:
  "drain it s = Some (xs, r, s') \<Longrightarrow>
   drain (flattened it) (s, ()) =
     Some (map (\<lambda>e. e\<lparr>offset := Some 0\<rparr>) (filter not_testAssert xs), None, (s', ()))"
  unfolding flattened_def
  using drain_map' [OF drain_filter', of it s xs r s' zero_offset not_testAssert "()"]
  by (simp add: thread_zero_offset)

lemma start_hierarchical:
  assumes "tests h = root # others" and "\<not> flatten h"
    and "next' root = Some (first, root')"
    and "drain (combine next') (shift (root' # others)) = Some (xs, r, st)"
    and "\<forall>e\<in>set xs. offset_positive e \<longrightarrow> type (message e) \<noteq> ''bailout''"
  shows "start h = Some (Fulfilled,
           \<lparr>message = Version 13, offset = None\<rparr> #
           fst (thread renumber (filter keep xs) \<lparr>count' = 0, success = 0, failure = 0\<rparr>) @
           final_reports (snd (thread renumber (filter keep xs) \<lparr>count' = 0, success = 0, failure = 0\<rparr>)))"
proof -
  let ?c = "\<lparr>count' = 0, success = 0, failure = 0\<rparr>"
  let ?ys = "fst (thread renumber (filter keep xs) ?c)"
  have d: "drain (numbered (combine next')) (shift (root' # others), ?c) =
        Some (?ys, None, (st, snd (thread renumber (filter keep xs) ?c)))"
    using assms(4) by (rule drain_numbered)
  have t: "map (\<lambda>e. (type (message e), offset e)) ?ys =
           map (\<lambda>e. (type (message e), offset e)) (filter keep xs)"
    by (rule thread_renumber_kinds)
  have nb: "\<forall>e\<in>set ?ys. type (message e) \<noteq> ''bailout''"
  proof
    fix e assume "e \<in> set ?ys"
    then have "(type (message e), offset e) \<in> set (map (\<lambda>e. (type (message e), offset e)) ?ys)"
      by force
    then obtain x where x: "x \<in> set xs" "keep x" "type (message x) = type (message e)"
        "offset x = offset e"
      unfolding t by auto
    show "type (message e) \<noteq> ''bailout''"
    proof (cases "offset_positive x")
      case True
      then show ?thesis using assms(5) x by auto
    next
      case False
      then show ?thesis using x by (auto simp: keep_iff)
    qed
  qed
  have "pull_loop (numbered (combine next')) (shift (root' # others), ?c)
          [\<lparr>message = Version 13, offset = None\<rparr>] =
        Some (Fulfilled, [\<lparr>message = Version 13, offset = None\<rparr>] @ ?ys,
              (st, snd (thread renumber (filter keep xs) ?c)))"
    using d nb by (rule pull_loop_drain)
  then show ?thesis using assms(1-3)
    by (simp add: start_def finish_def Let_def)
qed

lemma start_flattened:
  assumes "tests h = root # others" and "flatten h"
    and "next' root = Some (first, root')"
    and "drain (combine next') (shift (root' # others)) = Some (xs, r, st)"
  shows "start h = Some (Fulfilled,
           \<lparr>message = Version 13, offset = None\<rparr> #
           fst (thread renumber (filter keep (map (\<lambda>e. e\<lparr>offset := Some 0\<rparr>) (filter not_testAssert xs)))
                  \<lparr>count' = 0, success = 0, failure = 0\<rparr>) @
           final_reports (snd (thread renumber
                  (filter keep (map (\<lambda>e. e\<lparr>offset := Some 0\<rparr>) (filter not_testAssert xs)))
                  \<lparr>count' = 0, success = 0, failure = 0\<rparr>)))"
proof -
  let ?c = "\<lparr>count' = 0, success = 0, failure = 0\<rparr>"
  let ?k = "filter keep (map (\<lambda>e. e\<lparr>offset := Some 0\<rparr>) (filter not_testAssert xs))"
  let ?ys = "fst (thread renumber ?k ?c)"
  have "drain (flattened (combine next')) (shift (root' # others), ()) =
        Some (map (\<lambda>e. e\<lparr>offset := Some 0\<rparr>) (filter not_testAssert xs), None, (st, ()))"
    using assms(4) by (rule drain_flattened)
  then have d: "drain (numbered (flattened (combine next'))) ((shift (root' # others), ()), ?c) =
        Some (?ys, None, ((st, ()), snd (thread renumber ?k ?c)))"
    by (rule drain_numbered)
  have t: "map (\<lambda>e. (type (message e), offset e)) ?ys = map (\<lambda>e. (type (message e), offset e)) ?k"
    by (rule thread_renumber_kinds)
  have nb: "\<forall>e\<in>set ?ys. type (message e) \<noteq> ''bailout''"
  proof
    fix e assume "e \<in> set ?ys"
    then obtain x where x: "x \<in> set ?k" "type (message x) = type (message e)"
      using in_thread_renumber by blast
    from x(1) have "keep x \<and> offset x = Some 0" by auto
    then show "type (message e) \<noteq> ''bailout''"
      using x(2) by (auto simp: keep_iff offset_positive_def)
  qed
  have "pull_loop (numbered (flattened (combine next'))) ((shift (root' # others), ()), ?c)
          [\<lparr>message = Version 13, offset = None\<rparr>] =
        Some (Fulfilled, [\<lparr>message = Version 13, offset = None\<rparr>] @ ?ys,
              ((st, ()), snd (thread renumber ?k ?c)))"
    using d nb by (rule pull_loop_drain)
  then show ?thesis using assms(1-3)
    by (simp add: start_def finish_def Let_def)
qed

subsection \<open>The sample runs\<close>

lemma hier_next: "next' hier_root =
    Some (Value \<lparr>message = Title ''Root'', offset = Some 0\<rparr>, set_buffer (tl (buffer hier_root)) hier_root)"
  by code_simp

lemma hier_drain:
  "drain (combine next') (shift [set_buffer (tl (buffer hier_root)) hier_root]) =
     Some (hier_events, None, (None, []))"
  by code_simp

lemma flat_drain:
  "drain (combine next') (shift [set_buffer [] (tester 0 ''Root'' []), flat_parent]) =
     Some (flat_events, None, (None, []))"
  by code_simp

subsection \<open>The aggregate pass value along a drain\<close>

lemma slots_pass_append: "slots_pass (b @ c) = (slots_pass b \<and> slots_pass c)"
proof (induction b)
  case Nil
  then show ?case by simp
next
  case (Cons x b)
  then show ?case by (cases x) simp_all
qed

lemma final_pass_eq:
  "final_pass u = (pass' (result u) \<and> slots_pass (buffer u) \<and>
                   (done' u \<or> coRoutine u \<noteq> Pending \<or> spec_aggregatePass (todo u)))"
  by (cases u) simp

lemma final_pass_tester: "final_pass (tester off d spec) = spec_aggregatePass spec"
  by (simp add: tester_def)

lemma final_pass_set_instance_id: "final_pass (set_instance_id i t) = final_pass t"
  by (cases t) simp

lemma run_body_final_pass:
  "\<not> d \<Longrightarrow> final_pass (run_body spec (Instance b r d off [] el Pending i)) =
     (pass' r \<and> slots_pass b \<and> spec_aggregatePass spec)"
proof (induction spec arbitrary: b r el)
  case Nil
  then show ?case
    by (simp add: on_fulfilled_def push_def Let_def slots_pass_append)
next
  case (Cons a spec)
  show ?case
  proof (cases a)
    case (Check x loc)
    then show ?thesis using Cons
      by (auto simp: collector_def createAssertion_def push_def Let_def slots_pass_append
          pass_assertMethodHook)
  next
    case (Test x b')
    then show ?thesis using Cons
      by (auto simp: collector_def push_def Let_def slots_pass_append final_pass_tester
          final_pass_set_instance_id)
  next
    case (Await ms)
    then show ?thesis using Cons by simp
  next
    case (Throw err)
    then show ?thesis using Cons
      by (simp add: on_rejected_eq slots_pass_append failure_events_def)
  qed
qed

lemma settle_final_pass: "final_pass (settle u) = final_pass u \<or> done' u"
proof (cases u)
  case (Instance b r d off td el co i)
  show ?thesis
  proof (cases "co = Pending \<and> \<not> d")
    case True
    then show ?thesis using Instance run_body_final_pass [of d td b r off el i]
      by (simp add: settle_def)
  next
    case False
    then show ?thesis using Instance by (cases co) (auto simp: settle_def)
  qed
qed

lemma next'_final_pass_aux:
  assumes "next' u = Some y"
  shows "case fst y of Value v \<Rightarrow> final_pass (snd y) = final_pass u
                     | Done s \<Rightarrow> pass' s = final_pass u"
  using assms
proof (induct rule: next'_induct)
  case (step nxt u y)
  show ?case
  proof (cases "buffer u")
    case Nil
    show ?thesis
    proof (cases "done' u")
      case True
      then show ?thesis using step(2) Nil by (auto simp: final_pass_eq)
    next
      case False
      then have "nxt (settle u) = Some y" using step(2) Nil by simp
      from step(1) [OF this] show ?thesis
        using settle_final_pass [of u] False by (auto split: iter_result.splits)
    qed
  next
    case (Cons x rest)
    show ?thesis
    proof (cases x)
      case (Event e)
      then show ?thesis using step(2) Cons
        by (cases u) (auto simp: final_pass_eq)
    next
      case (SubTest t)
      then obtain r t' where t: "nxt t = Some (r, t')"
        using step(2) Cons by (auto split: bind_splits)
      note ih = step(1) [OF t]
      show ?thesis
      proof (cases r)
        case (Value v)
        then show ?thesis using step(2) Cons SubTest t ih
          by (cases u) (auto simp: final_pass_eq)
      next
        case (Done s)
        obtain sub u' where sa: "subTestAssertion s t' u = (sub, u')"
          by (cases "subTestAssertion s t' u")
        then have n: "nxt (set_buffer (Event sub # rest) u') = Some y"
          using step(2) Cons SubTest t Done by simp
        have u': "u' = set_result ((result u)\<lparr>pass' := pass' (result u) \<and> pass' s\<rparr>) u"
          using subTestAssertion_event [OF sa] by simp
        have e: "final_pass (set_buffer (Event sub # rest) u') = final_pass u"
          using ih Done Cons SubTest u' by (cases u) (auto simp: final_pass_eq)
        show ?thesis using step(1) [OF n] unfolding e .
      qed
    qed
  qed
qed

lemma drain_final_pass:
  "drain next' u = Some (xs, s, u') \<Longrightarrow> pass' s = final_pass u"
proof (induction xs arbitrary: u)
  case Nil
  then have "next' u = Some (Done s, u')" by (rule drain_Some_Nil)
  from next'_final_pass_aux [OF this] show ?case by simp
next
  case (Cons x xs)
  from drain_Some_Cons [OF Cons.prems]
  obtain u1 where u1: "next' u = Some (Value x, u1)" "drain next' u1 = Some (xs, s, u')"
    by iprover
  from next'_final_pass_aux [OF u1(1)] Cons.IH [OF u1(2)] show ?case by simp
qed

subsection \<open>Draining a unit whose bodies do not raise comes to an end\<close>

lemma slots_pulls_append: "slots_pulls (b @ c) = slots_pulls b + slots_pulls c"
proof (induction b)
  case Nil
  then show ?case by simp
next
  case (Cons x b)
  then show ?case by (cases x) simp_all
qed

lemma sound_slots_append: "sound_slots (b @ c) = (sound_slots b \<and> sound_slots c)"
proof (induction b)
  case Nil
  then show ?case by simp
next
  case (Cons x b)
  then show ?case by (cases x) simp_all
qed

lemma pulls_eq:
  "pulls u = slots_pulls (buffer u) +
     (if coRoutine u = Pending \<and> \<not> done' u then body_pulls (todo u) + 3 else 0)"
  by (cases u) simp

lemma sound_eq:
  "sound u = (sound_slots (buffer u) \<and>
      ((done' u \<and> coRoutine u = ResolvedResult) \<or>
       (\<not> done' u \<and> coRoutine u = Pending \<and> no_throw (todo u))))"
  by (cases u) simp

lemma run_body_sound:
  "no_throw spec \<Longrightarrow> sound_slots b \<Longrightarrow>
   sound (run_body spec (Instance b r False off [] el Pending i)) \<and>
   pulls (run_body spec (Instance b r False off [] el Pending i)) = slots_pulls b + body_pulls spec + 2 \<and>
   done' (run_body spec (Instance b r False off [] el Pending i))"
proof (induction spec arbitrary: b r el)
  case Nil
  then show ?case
    by (simp add: on_fulfilled_def push_def Let_def slots_pulls_append sound_slots_append)
next
  case (Cons a spec)
  show ?case
  proof (cases a)
    case (Check x loc)
    then show ?thesis using Cons
      by (simp add: collector_def createAssertion_def push_def Let_def slots_pulls_append
          sound_slots_append)
  next
    case (Test x b')
    then show ?thesis using Cons
      by (simp add: collector_def push_def Let_def slots_pulls_append sound_slots_append tester_def)
  next
    case (Await ms)
    then show ?thesis using Cons by simp
  next
    case (Throw err)
    then show ?thesis using Cons by simp
  qed
qed

lemma settle_sound:
  assumes "sound u" and "\<not> done' u"
  shows "sound (settle u) \<and> pulls (settle u) < pulls u \<and> done' (settle u)"
proof (cases u)
  case (Instance b r d off td el co i)
  then have p: "co = Pending" "no_throw td" "sound_slots b" "\<not> d"
    using assms by auto
  show ?thesis
    using run_body_sound [OF p(2,3), of r off el i] Instance p
    by (simp add: settle_def)
qed

lemma next'_sound:
  "sound u \<Longrightarrow> \<exists>r u1. next' u = Some (r, u1) \<and>
      (case r of Value v \<Rightarrow> sound u1 \<and> pulls u1 < pulls u | Done s \<Rightarrow> True)"
proof (induction "pulls u" arbitrary: u rule: less_induct)
  case less
  show ?case
  proof (cases "buffer u")
    case Nil
    show ?thesis
    proof (cases "done' u")
      case True
      then show ?thesis using Nil by (simp add: next'_empty_done)
    next
      case False
      note s = settle_sound [OF less.prems False]
      from less.hyps [of "settle u"] s
      obtain r u1 where r: "next' (settle u) = Some (r, u1)"
        "case r of Value v \<Rightarrow> sound u1 \<and> pulls u1 < pulls (settle u) | Done s \<Rightarrow> True"
        by iprover
      have "next' u = Some (r, u1)" using r(1) Nil False by (simp add: next'_empty_pending)
      then show ?thesis using r(2) s by (cases r) auto
    qed
  next
    case (Cons x rest)
    show ?thesis
    proof (cases x)
      case (Event e)
      have "next' u = Some (Value e, set_buffer rest u)"
        using Cons Event by (simp add: next'_Event)
      moreover have "sound (set_buffer rest u) \<and> pulls (set_buffer rest u) < pulls u"
        using less.prems Cons Event by (cases u) auto
      ultimately show ?thesis by simp
    next
      case (SubTest t)
      have st: "sound t" "pulls t < pulls u"
        using less.prems Cons SubTest by (cases u; auto)+
      from less.hyps [OF st(2) st(1)]
      obtain r t' where r: "next' t = Some (r, t')"
        "case r of Value v \<Rightarrow> sound t' \<and> pulls t' < pulls t | Done s \<Rightarrow> True"
        by iprover
      show ?thesis
      proof (cases r)
        case (Value v)
        have "next' u = Some (Value v, set_buffer (SubTest t' # rest) u)"
          using Cons SubTest r(1) Value by (simp add: next'_SubTest_Value)
        moreover have "sound (set_buffer (SubTest t' # rest) u) \<and>
                       pulls (set_buffer (SubTest t' # rest) u) < pulls u"
          using less.prems Cons SubTest r(2) Value by (cases u) auto
        ultimately show ?thesis by simp
      next
        case (Done s)
        obtain sub u' where sa: "subTestAssertion s t' u = (sub, u')"
          by (cases "subTestAssertion s t' u")
        have u': "u' = set_result ((result u)\<lparr>pass' := pass' (result u) \<and> pass' s\<rparr>) u"
          using subTestAssertion_event [OF sa] by simp
        have n: "next' u = next' (set_buffer (Event sub # rest) u')"
          using Cons SubTest r(1) Done sa by (simp add: next'_SubTest_Done)
        have "next' (set_buffer (Event sub # rest) u') = Some (Value sub, set_buffer rest u')"
          using next'_Event [of "set_buffer (Event sub # rest) u'" sub rest] by simp
        moreover have "sound (set_buffer rest u') \<and> pulls (set_buffer rest u') < pulls u"
          using less.prems Cons SubTest u' by (cases u) auto
        ultimately show ?thesis using n by simp
      qed
    qed
  qed
qed

lemma drain_sound:
  "sound u \<Longrightarrow> \<exists>xs s u'. drain next' u = Some (xs, s, u')"
proof (induction "pulls u" arbitrary: u rule: less_induct)
  case less
  from next'_sound [OF less.prems]
  obtain r u1 where r: "next' u = Some (r, u1)"
    "case r of Value v \<Rightarrow> sound u1 \<and> pulls u1 < pulls u | Done s \<Rightarrow> True"
    by iprover
  show ?case
  proof (cases r)
    case (Value v)
    then have "sound u1" "pulls u1 < pulls u" using r(2) by simp_all
    from less.hyps [OF this(2) this(1)]
    obtain xs s u' where "drain next' u1 = Some (xs, s, u')" by iprover
    then have "drain next' u = Some (v # xs, s, u')"
      using r(1) Value by (simp add: drain_Value)
    then show ?thesis by iprover
  next
    case (Done s)
    then have "drain next' u = Some ([], s, u1)" using r(1) by (simp add: drain_Done)
    then show ?thesis by iprover
  qed
qed

lemma sound_tester: "no_throw spec \<Longrightarrow> sound (tester off d spec)"
  by (simp add: tester_def)

subsection \<open>The sequence of a unit, and the progress of its bodies\<close>

lemma slots_events_append: "slots_events off (b @ c) = slots_events off b @ slots_events off c"
proof (induction b)
  case Nil
  then show ?case by simp
next
  case (Cons x b)
  then show ?case by (cases x) simp_all
qed

lemma events_of_eq:
  "events_of u = slots_events (unit_offset u) (buffer u) @
     (if running u then body_events (unit_offset u) (count (result u)) (elapsed u) (todo u) else [])"
  by (cases u) (simp add: running_def)

lemma run_body_closed:
  "no_throw spec \<Longrightarrow>
   events_of (run_body spec (Instance b r False off [] el Pending i)) =
     slots_events off b @ body_events off (count r) el spec \<and>
   summary_of (run_body spec (Instance b r False off [] el Pending i)) =
     summary_of (Instance b r False off spec el Pending i) \<and>
   instance_id (run_body spec (Instance b r False off [] el Pending i)) = i \<and>
   unit_offset (run_body spec (Instance b r False off [] el Pending i)) = off"
proof (induction spec arbitrary: b r el)
  case Nil
  then show ?case
    by (simp add: on_fulfilled_def push_def Let_def slots_events_append summary_of_def running_def
        slots_pass_append)
next
  case (Cons a spec)
  show ?case
  proof (cases a)
    case (Check x loc)
    then show ?thesis using Cons
      by (auto simp: collector_def createAssertion_def push_def Let_def slots_events_append
          summary_of_def running_def slots_pass_append pass_assertMethodHook conj_commute conj_left_commute)
  next
    case (Test x b')
    then show ?thesis using Cons
      by (auto simp: collector_def push_def Let_def slots_events_append
          summary_of_def running_def slots_pass_append tester_def conj_commute conj_left_commute)
  next
    case (Await ms)
    then show ?thesis using Cons
      by (auto simp: summary_of_def running_def add.assoc)
  next
    case (Throw err)
    then show ?thesis using Cons by simp
  qed
qed

lemma settle_events:
  assumes "sound u" and "\<not> done' u"
  shows "events_of (settle u) = events_of u \<and> summary_of (settle u) = summary_of u \<and>
         instance_id (settle u) = instance_id u \<and> unit_offset (settle u) = unit_offset u"
proof (cases u)
  case (Instance b r d off td el co i)
  then have p: "co = Pending" "no_throw td" "\<not> d"
    using assms by auto
  show ?thesis
    using run_body_closed [OF p(2), of b r off el i] Instance p
    by (simp add: settle_def)
qed

lemma summary_of_fields:
  "count (summary_of u) = count (result u) + (if running u then collects (todo u) else 0)"
  "pass' (summary_of u) = final_pass u"
  "description' (summary_of u) = description' (result u)"
  by (simp_all add: summary_of_def)

lemma next'_events:
  "sound u \<Longrightarrow> \<exists>r u1. next' u = Some (r, u1) \<and>
      instance_id u1 = instance_id u \<and> unit_offset u1 = unit_offset u \<and>
      (case r of
         Value v \<Rightarrow> sound u1 \<and> pulls u1 < pulls u \<and> events_of u = v # events_of u1 \<and>
                    summary_of u1 = summary_of u
       | Done s \<Rightarrow> events_of u = [] \<and> s = summary_of u)"
proof (induction "pulls u" arbitrary: u rule: less_induct)
  case less
  show ?case
  proof (cases "buffer u")
    case Nil
    show ?thesis
    proof (cases "done' u")
      case True
      have "next' u = Some (Done (result u), u)" using Nil True by (simp add: next'_empty_done)
      moreover have "events_of u = [] \<and> result u = summary_of u"
        using Nil True by (cases u) (simp add: summary_of_def running_def)
      ultimately show ?thesis by simp
    next
      case False
      note s = settle_sound [OF less.prems False]
      note e = settle_events [OF less.prems False]
      from less.hyps [of "settle u"] s
      obtain r u1 where r: "next' (settle u) = Some (r, u1)"
        "instance_id u1 = instance_id (settle u) \<and> unit_offset u1 = unit_offset (settle u)"
        "case r of
           Value v \<Rightarrow> sound u1 \<and> pulls u1 < pulls (settle u) \<and>
                      events_of (settle u) = v # events_of u1 \<and> summary_of u1 = summary_of (settle u)
         | Done s \<Rightarrow> events_of (settle u) = [] \<and> s = summary_of (settle u)"
        by iprover
      have n: "next' u = Some (r, u1)" using r(1) Nil False by (simp add: next'_empty_pending)
      show ?thesis
      proof (cases r)
        case (Value v)
        then show ?thesis using n r(2,3) s e by simp
      next
        case (Done x)
        then show ?thesis using n r(2,3) s e by simp
      qed
    qed
  next
    case (Cons x rest)
    show ?thesis
    proof (cases x)
      case (Event e)
      have "next' u = Some (Value e, set_buffer rest u)"
        using Cons Event by (simp add: next'_Event)
      moreover have "sound (set_buffer rest u) \<and> pulls (set_buffer rest u) < pulls u \<and>
          events_of u = e # events_of (set_buffer rest u) \<and>
          summary_of (set_buffer rest u) = summary_of u \<and>
          instance_id (set_buffer rest u) = instance_id u \<and>
          unit_offset (set_buffer rest u) = unit_offset u"
        using less.prems Cons Event by (cases u) (auto simp: summary_of_def running_def)
      ultimately show ?thesis by simp
    next
      case (SubTest t)
      have st: "sound t" "pulls t < pulls u"
        using less.prems Cons SubTest by (cases u; auto)+
      from less.hyps [OF st(2) st(1)]
      obtain r t' where r: "next' t = Some (r, t')"
        "instance_id t' = instance_id t \<and> unit_offset t' = unit_offset t"
        "case r of
           Value v \<Rightarrow> sound t' \<and> pulls t' < pulls t \<and> events_of t = v # events_of t' \<and>
                      summary_of t' = summary_of t
         | Done s \<Rightarrow> events_of t = [] \<and> s = summary_of t"
        by iprover
      show ?thesis
      proof (cases r)
        case (Value v)
        have "next' u = Some (Value v, set_buffer (SubTest t' # rest) u)"
          using Cons SubTest r(1) Value by (simp add: next'_SubTest_Value)
        moreover have "final_pass t' = final_pass t"
          using r(3) Value summary_of_fields(2) [of t] summary_of_fields(2) [of t'] by simp
        then have "sound (set_buffer (SubTest t' # rest) u) \<and>
            pulls (set_buffer (SubTest t' # rest) u) < pulls u \<and>
            events_of u = v # events_of (set_buffer (SubTest t' # rest) u) \<and>
            summary_of (set_buffer (SubTest t' # rest) u) = summary_of u \<and>
            instance_id (set_buffer (SubTest t' # rest) u) = instance_id u \<and>
            unit_offset (set_buffer (SubTest t' # rest) u) = unit_offset u"
          using less.prems Cons SubTest r(2,3) Value
          by (cases u) (auto simp: summary_of_def running_def)
        ultimately show ?thesis by simp
      next
        case (Done s)
        obtain sub u' where sa: "subTestAssertion s t' u = (sub, u')"
          by (cases "subTestAssertion s t' u")
        have u': "u' = set_result ((result u)\<lparr>pass' := pass' (result u) \<and> pass' s\<rparr>) u"
          and sub: "sub = summary_event_of s (instance_id t') (unit_offset u)"
          using subTestAssertion_event [OF sa] by (simp_all add: summary_event_of_def)
        have n: "next' u = next' (set_buffer (Event sub # rest) u')"
          using Cons SubTest r(1) Done sa by (simp add: next'_SubTest_Done)
        have n2: "next' (set_buffer (Event sub # rest) u') = Some (Value sub, set_buffer rest u')"
          using next'_Event [of "set_buffer (Event sub # rest) u'" sub rest] by simp
        have s: "s = summary_of t" "events_of t = []" using r(3) Done by simp_all
        have "sound (set_buffer rest u') \<and> pulls (set_buffer rest u') < pulls u \<and>
            events_of u = sub # events_of (set_buffer rest u') \<and>
            summary_of (set_buffer rest u') = summary_of u \<and>
            instance_id (set_buffer rest u') = instance_id u \<and>
            unit_offset (set_buffer rest u') = unit_offset u"
          using less.prems Cons SubTest u' sub s r(2) summary_of_fields(2) [of t]
          by (cases u) (auto simp: summary_of_def running_def conj_commute conj_left_commute)
        then show ?thesis using n n2 by simp
      qed
    qed
  qed
qed

lemma drain_events:
  "sound u \<Longrightarrow> \<exists>u'. drain next' u = Some (events_of u, summary_of u, u')"
proof (induction "pulls u" arbitrary: u rule: less_induct)
  case less
  from next'_events [OF less.prems]
  obtain r u1 where r: "next' u = Some (r, u1)"
    "case r of
       Value v \<Rightarrow> sound u1 \<and> pulls u1 < pulls u \<and> events_of u = v # events_of u1 \<and>
                  summary_of u1 = summary_of u
     | Done s \<Rightarrow> events_of u = [] \<and> s = summary_of u"
    by iprover
  show ?case
  proof (cases r)
    case (Value v)
    then have v: "sound u1" "pulls u1 < pulls u" "events_of u = v # events_of u1"
      "summary_of u1 = summary_of u" using r(2) by simp_all
    from less.hyps [OF v(2) v(1)]
    obtain u' where "drain next' u1 = Some (events_of u1, summary_of u1, u')" by iprover
    then have "drain next' u = Some (events_of u, summary_of u, u')"
      using r(1) Value v(3,4) by (simp add: drain_Value)
    then show ?thesis by iprover
  next
    case (Done s)
    then have "drain next' u = Some (events_of u, summary_of u, u1)"
      using r by (simp add: drain_Done)
    then show ?thesis by iprover
  qed
qed

lemma progress_events:
  assumes "sound u"
  shows "sound (progress u) \<and> events_of (progress u) = events_of u \<and>
         summary_of (progress u) = summary_of u \<and>
         instance_id (progress u) = instance_id u \<and> unit_offset (progress u) = unit_offset u"
proof (cases u)
  case (Instance b r d off td el co i)
  show ?thesis
  proof (cases "co = Pending")
    case False
    then show ?thesis using Instance assms by (cases co) (simp_all add: progress_def)
  next
    case True
    then have p: "\<not> d" "no_throw td" "sound_slots b" using Instance assms by auto
    show ?thesis
    proof (cases td)
      case Nil
      then show ?thesis using Instance True p
        by (simp add: progress_def on_fulfilled_def push_def Let_def slots_events_append
            summary_of_def running_def slots_pass_append sound_slots_append)
    next
      case (Cons a spec)
      show ?thesis
      proof (cases a)
        case (Check x loc)
        then show ?thesis using Instance True p Cons
          by (auto simp: progress_def collector_def createAssertion_def push_def Let_def
              slots_events_append summary_of_def running_def slots_pass_append sound_slots_append
              pass_assertMethodHook conj_commute conj_left_commute)
      next
        case (Test x b')
        then show ?thesis using Instance True p Cons
          by (auto simp: progress_def collector_def push_def Let_def
              slots_events_append summary_of_def running_def slots_pass_append sound_slots_append
              tester_def conj_commute conj_left_commute)
      next
        case (Await ms)
        then show ?thesis using Instance True p Cons
          by (auto simp: progress_def summary_of_def running_def add.assoc)
      next
        case (Throw err)
        then show ?thesis using p Cons by simp
      qed
    qed
  qed
qed

lemma replace_slot_events:
  assumes "buffer u = b1 @ SubTest t # b2" and "sound u"
    and "sound t'" and "events_of t' = events_of t" and "summary_of t' = summary_of t"
    and "instance_id t' = instance_id t"
  shows "sound (set_buffer (b1 @ SubTest t' # b2) u) \<and>
         events_of (set_buffer (b1 @ SubTest t' # b2) u) = events_of u \<and>
         summary_of (set_buffer (b1 @ SubTest t' # b2) u) = summary_of u \<and>
         instance_id (set_buffer (b1 @ SubTest t' # b2) u) = instance_id u \<and>
         unit_offset (set_buffer (b1 @ SubTest t' # b2) u) = unit_offset u"
proof -
  have f: "final_pass t' = final_pass t"
    using assms(5) summary_of_fields(2) [of t] summary_of_fields(2) [of t'] by simp
  show ?thesis
    using assms f
    by (cases u)
       (auto simp: slots_events_append slots_pass_append sound_slots_append summary_of_def running_def)
qed

lemma sound_slot:
  "sound u \<Longrightarrow> buffer u = b1 @ SubTest t # b2 \<Longrightarrow> sound t"
  by (cases u) (auto simp: sound_slots_append)

lemma advance_events:
  "advance u w \<Longrightarrow> sound u \<Longrightarrow>
   sound w \<and> events_of w = events_of u \<and> summary_of w = summary_of u \<and>
   instance_id w = instance_id u \<and> unit_offset w = unit_offset u"
proof (induction rule: advance.induct)
  case (here u)
  then show ?case by (rule progress_events)
next
  case (below u b1 t b2 t')
  have "sound t" using below.prems below.hyps(1) by (rule sound_slot)
  from below.IH [OF this] show ?case
    using below.hyps(1) below.prems by (intro replace_slot_events) simp_all
qed

lemma advances_events:
  "advance\<^sup>*\<^sup>* u w \<Longrightarrow> sound u \<Longrightarrow>
   sound w \<and> events_of w = events_of u \<and> summary_of w = summary_of u"
proof (induction rule: rtranclp_induct)
  case base
  then show ?case by simp
next
  case (step v w)
  then show ?case using advance_events [of v w] by simp
qed

lemma drain_advanced:
  assumes "sound u" and "advance\<^sup>*\<^sup>* u w"
  shows "\<exists>w'. drain next' w = Some (events_of u, summary_of u, w')"
  using advances_events [OF assms(2,1)] drain_events [of w] by simp

lemma drain_all_advanced:
  "list_all2 (\<lambda>u w. sound u \<and> advance\<^sup>*\<^sup>* u w) units units' \<Longrightarrow>
   list_all2 (\<lambda>c xs. \<exists>r c'. drain next' c = Some (xs, r, c')) units' (map events_of units)"
proof (induction rule: list_all2_induct)
  case Nil
  then show ?case by simp
next
  case (Cons u us w ws)
  then show ?case using drain_advanced [of u w] by auto
qed

lemma settle_test_2: "settle test_2 = progress (progress (progress (progress test_2)))"
  by code_simp

lemma sample_events_of:
  "events_of test_1 = sample_events ''test 1'' ''assert1'' ''assert2'' 500"
  "events_of test_2 = sample_events ''test 2'' ''assert3'' ''assert4'' 300"
  by code_simp+

subsection \<open>The flattened stream behind a unit whose body has raised\<close>

lemma filter'_same_first: "it s = it s2 \<Longrightarrow> filter' p it s = filter' p it s2"
  by (subst filter'.simps, subst (2) filter'.simps) simp

lemma filter'_None: "it s = None \<Longrightarrow> filter' p it s = None"
  by (subst filter'.simps) simp

lemma pull_loop_same_first: "out s = out s2 \<Longrightarrow> pull_loop out s acc = pull_loop out s2 acc"
  by (subst pull_loop.simps, subst (2) pull_loop.simps) simp

lemma pull_loop_None: "out s = None \<Longrightarrow> pull_loop out s acc = None"
  by (subst pull_loop.simps) simp

lemma combine_hang: "it c = None \<Longrightarrow> combine it (Some c, ps) = None"
  by (subst combine.simps) simp

lemma flattened_loop_hangs:
  assumes "\<not> done' u" and "coRoutine u = ResolvedUndefined" and "buffer u = map Event es"
  shows "pull_loop (numbered (flattened (combine next'))) (((Some u, []), ()), c) acc = None"
  using assms
proof (induction es arbitrary: u c acc)
  case Nil
  then have "next' u = None" by (simp add: next'_stuck)
  then have "combine next' (Some u, []) = None" by (rule combine_hang)
  then have "filter' not_testAssert (combine next') (Some u, []) = None" by (rule filter'_None)
  then have "flattened (combine next') ((Some u, []), ()) = None"
    by (simp add: flattened_def map'_def)
  then have "filter' keep (flattened (combine next')) ((Some u, []), ()) = None"
    by (rule filter'_None)
  then have "numbered (flattened (combine next')) (((Some u, []), ()), c) = None"
    by (simp add: numbered_def map'_def)
  then show ?case by (rule pull_loop_None)
next
  case (Cons e es)
  let ?u1 = "set_buffer (map Event es) u"
  let ?s = "(Some u, [])" and ?s1 = "(Some ?u1, [])"
  let ?X = "combine next'"
  let ?Fl = "flattened ?X"
  let ?F = "numbered ?Fl"
  have u1: "\<not> done' ?u1" "coRoutine ?u1 = ResolvedUndefined" "buffer ?u1 = map Event es"
    using Cons.prems by (cases u; simp)+
  note ih = Cons.IH [OF u1]
  have "next' u = Some (Value e, ?u1)" using Cons.prems(3) by (simp add: next'_Event)
  then have x: "?X ?s = Some (Value e, ?s1)" by (rule combine_Value)
  show ?case
  proof (cases "not_testAssert e")
    case False
    then have "filter' not_testAssert ?X ?s = filter' not_testAssert ?X ?s1"
      using x by (simp add: filter'_Value_skip)
    then have "?Fl (?s, ()) = ?Fl (?s1, ())" by (simp add: flattened_def map'_def)
    then have "filter' keep ?Fl (?s, ()) = filter' keep ?Fl (?s1, ())" by (rule filter'_same_first)
    then have "?F ((?s, ()), c) = ?F ((?s1, ()), c)" by (simp add: numbered_def map'_def)
    then have "pull_loop ?F ((?s, ()), c) acc = pull_loop ?F ((?s1, ()), c) acc"
      by (rule pull_loop_same_first)
    then show ?thesis using ih by simp
  next
    case True
    let ?e0 = "e\<lparr>offset := Some 0\<rparr>"
    have "filter' not_testAssert ?X ?s = Some (Value e, ?s1)"
      using x True by (simp add: filter'_Value_keep)
    then have fl: "?Fl (?s, ()) = Some (Value ?e0, (?s1, ()))"
      by (simp add: flattened_def map'_def zero_offset_def)
    show ?thesis
    proof (cases "keep ?e0")
      case False
      then have "filter' keep ?Fl (?s, ()) = filter' keep ?Fl (?s1, ())"
        using fl by (simp add: filter'_Value_skip)
      then have "?F ((?s, ()), c) = ?F ((?s1, ()), c)" by (simp add: numbered_def map'_def)
      then have "pull_loop ?F ((?s, ()), c) acc = pull_loop ?F ((?s1, ()), c) acc"
        by (rule pull_loop_same_first)
      then show ?thesis using ih by simp
    next
      case True
      then have "filter' keep ?Fl (?s, ()) = Some (Value ?e0, (?s1, ()))"
        using fl by (simp add: filter'_Value_keep)
      then have f: "?F ((?s, ()), c) =
          Some (Value (fst (renumber ?e0 c)), ((?s1, ()), snd (renumber ?e0 c)))"
        by (simp add: numbered_def map'_def case_prod_beta)
      have "type (message ?e0) \<noteq> ''bailout''"
        using True by (auto simp: keep_iff offset_positive_def)
      then have "type (message (fst (renumber ?e0 c))) \<noteq> ''bailout''"
        by (simp add: renumber_keeps)
      with f have "pull_loop ?F ((?s, ()), c) acc =
          pull_loop ?F ((?s1, ()), snd (renumber ?e0 c)) (acc @ [fst (renumber ?e0 c)])"
        by (rule pull_loop_Value)
      then show ?thesis using ih by simp
    qed
  qed
qed

lemma top_failure_first_pulls:
  "pull_loop (numbered (flattened (combine next')))
     ((shift [set_buffer [] (tester 0 ''Root'' []), tester 0 ''A'' [Throw (String ''boom'')]], ()),
      \<lparr>count' = 0, success = 0, failure = 0\<rparr>) [version_report] =
   pull_loop (numbered (flattened (combine next')))
     (((Some failed_A, []), ()), \<lparr>count' = 1, success = 0, failure = 1\<rparr>)
     [version_report, \<lparr>message = Title ''A'', offset = Some 0\<rparr>,
      \<lparr>message = Assert
           \<lparr>pass = False, description = String ''A'', operator = None, expected = None,
            actual = None, at' = None, id' = Some 1, executionTime = None\<rparr>,
         offset = Some 0\<rparr>]"
proof -
  let ?F = "numbered (flattened (combine next'))"
  let ?A1 = "set_buffer [] (tester 0 ''A'' [Throw (String ''boom'')])"
  have 1: "?F ((shift [set_buffer [] (tester 0 ''Root'' []), tester 0 ''A'' [Throw (String ''boom'')]], ()),
      \<lparr>count' = 0, success = 0, failure = 0\<rparr>) =
     Some (Value \<lparr>message = Title ''A'', offset = Some 0\<rparr>,
           (((Some ?A1, []), ()), \<lparr>count' = 0, success = 0, failure = 0\<rparr>))"
    by code_simp
  have 2: "?F (((Some ?A1, []), ()), \<lparr>count' = 0, success = 0, failure = 0\<rparr>) =
     Some (Value \<lparr>message = Assert
           \<lparr>pass = False, description = String ''A'', operator = None, expected = None,
            actual = None, at' = None, id' = Some 1, executionTime = None\<rparr>,
         offset = Some 0\<rparr>,
           (((Some failed_A, []), ()), \<lparr>count' = 1, success = 0, failure = 1\<rparr>))"
    by code_simp
  have "pull_loop ?F ((shift [set_buffer [] (tester 0 ''Root'' []), tester 0 ''A'' [Throw (String ''boom'')]], ()),
      \<lparr>count' = 0, success = 0, failure = 0\<rparr>) [version_report] =
     pull_loop ?F (((Some ?A1, []), ()), \<lparr>count' = 0, success = 0, failure = 0\<rparr>)
       ([version_report] @ [\<lparr>message = Title ''A'', offset = Some 0\<rparr>])"
    using 1 by (rule pull_loop_Value) simp
  also have "\<dots> = pull_loop ?F (((Some failed_A, []), ()), \<lparr>count' = 1, success = 0, failure = 1\<rparr>)
       (([version_report] @ [\<lparr>message = Title ''A'', offset = Some 0\<rparr>]) @
        [\<lparr>message = Assert
           \<lparr>pass = False, description = String ''A'', operator = None, expected = None,
            actual = None, at' = None, id' = Some 1, executionTime = None\<rparr>,
         offset = Some 0\<rparr>])"
    using 2 by (rule pull_loop_Value) simp
  finally show ?thesis by simp
qed

section \<open>Failure of a body (C1)\<close>

text \<open>
  C1, as the source has it. When the body of a unit raises after the calls \<open>pre\<close>, the
  failure handler appends three events to the buffer the calls have filled: a failing
  \<^verbatim>\<open>assert\<close> carrying the description of the unit, the comment \<^verbatim>\<open>Unhandled exception\<close> and
  a \<^verbatim>\<open>bailout\<close> carrying the raised value at the offset of the unit. The \<^verbatim>\<open>result\<close>
  object is the one the calls left (the handler does not touch \<^verbatim>\<open>result.pass\<close>),
  \<^verbatim>\<open>done\<close> keeps its value, and \<^verbatim>\<open>coRoutine\<close> resolves with \<^verbatim>\<open>undefined\<close>. Once the buffer
  of such a unit is empty, a pull on it never resolves: the sequence has no end.
\<close>

theorem body_failure_effects:
  assumes "coRoutine u = Pending"
    and "todo u = pre @ Throw err # rest"
    and "\<forall>e. Throw e \<notin> set pre"
  shows "(let v = fold exec pre (set_todo [] u) in
           buffer (settle u) = buffer v @ failure_events (description' (result u)) err (unit_offset u) \<and>
           result (settle u) = result v) \<and>
         done' (settle u) = done' u \<and>
         coRoutine (settle u) = ResolvedUndefined \<and>
         (buffer w = [] \<and> \<not> done' w \<and> coRoutine w = ResolvedUndefined \<longrightarrow> next' w = None)"
proof -
  let ?v = "fold exec pre (set_todo [] u)"
  have s: "settle u = on_rejected err ?v"
    using assms by (simp add: settle_def run_body_append)
  have k: "unit_offset ?v = unit_offset u \<and> done' ?v = done' u \<and>
           description' (result ?v) = description' (result u)"
    using fold_exec_keeps [of pre "set_todo [] u"] by simp
  have r: "buffer (on_rejected err ?v) =
             buffer ?v @ failure_events (description' (result ?v)) err (unit_offset ?v) \<and>
           result (on_rejected err ?v) = result ?v \<and> done' (on_rejected err ?v) = done' ?v \<and>
           coRoutine (on_rejected err ?v) = ResolvedUndefined"
    by (cases ?v) (simp add: on_rejected_eq)
  have n: "buffer w = [] \<and> \<not> done' w \<and> coRoutine w = ResolvedUndefined \<longrightarrow> next' w = None"
    by (simp add: next'_stuck)
  show ?thesis using s k r n by (simp add: Let_def)
qed

text \<open>
  An instance: a body that makes one passing assertion and then raises. The aggregate
  pass flag is still true after the failure.
\<close>

theorem body_failure_effects_witness:
  "buffer (settle raising_unit) =
     [Event \<lparr>message = Title ''test 1'', offset = Some 0\<rparr>,
      Event \<lparr>message = Assert ((ok (Boolean True) Undefined)\<lparr>id' := Some 1\<rparr>), offset = Some 0\<rparr>]
     @ failure_events ''test 1'' (String ''boom'') 0 \<and>
   pass' (result (settle raising_unit)) \<and>
   \<not> done' (settle raising_unit) \<and>
   coRoutine (settle raising_unit) = ResolvedUndefined \<and>
   next' (set_buffer [] (settle raising_unit)) = None"
proof -
  have c: "coRoutine (set_buffer [] (settle raising_unit)) = ResolvedUndefined \<and>
           \<not> done' (set_buffer [] (settle raising_unit))"
    by (simp add: raising_unit_def tester_def settle_def collector_def createAssertion_def
        push_def assertMethodHook_def ok_def on_rejected_def Let_def)
  show ?thesis
    using c body_failure_effects [of raising_unit "[Check (ok (Boolean True) Undefined) ''at'']"
        "String ''boom''" "[]" "set_buffer [] (settle raising_unit)"]
    by (simp add: raising_unit_def tester_def collector_def createAssertion_def
        push_def assertMethodHook_def ok_def Let_def)
qed

text \<open>
  Against C1 as stated: for the unit \<^verbatim>\<open>test('test 1', () => { throw 'boom' })\<close>, after the
  failure the aggregate pass flag is true, the unit is not done, its completion promise
  has resolved with \<^verbatim>\<open>undefined\<close> and not with a summary, and draining its sequence never
  comes to an end.
\<close>

theorem body_failure_counterexample:
  "pass' (result (settle (tester 0 ''test 1'' [Throw (String ''boom'')]))) \<and>
   \<not> done' (settle (tester 0 ''test 1'' [Throw (String ''boom'')])) \<and>
   coRoutine (settle (tester 0 ''test 1'' [Throw (String ''boom'')])) = ResolvedUndefined \<and>
   drain next' (tester 0 ''test 1'' [Throw (String ''boom'')]) = None"
proof -
  let ?u = "tester 0 ''test 1'' [Throw (String ''boom'')]"
  let ?e = "\<lambda>b. Instance b
            \<lparr>count = 0, pass' = True, description' = ''test 1'', executionTime' = None\<rparr>
            False 0 [] 0 ResolvedUndefined None"
  let ?p = "Instance []
            \<lparr>count = 0, pass' = True, description' = ''test 1'', executionTime' = None\<rparr>
            False 0 [Throw (String ''boom'')] 0 Pending None"
  have s: "settle ?u =
      ?e (Event \<lparr>message = Title ''test 1'', offset = Some 0\<rparr> #
          failure_events ''test 1'' (String ''boom'') 0)"
    by (simp add: tester_def settle_def on_rejected_eq)
  have n0: "next' (?e []) = None" by (simp add: next'_stuck)
  have d0: "drain next' (?e []) = None"
    by (simp add: drain_None n0)
  have d1: "\<And>e b. drain next' (?e b) = None \<Longrightarrow> drain next' (?e (Event e # b)) = None"
    by (simp add: drain_Value next'_Event)
  have d3: "drain next' (?e (failure_events ''test 1'' (String ''boom'') 0)) = None"
    unfolding failure_events_def by (intro d1 d0)
  have "next' ?u = Some (Value \<lparr>message = Title ''test 1'', offset = Some 0\<rparr>, ?p)"
    by (simp add: next'_Event tester_def)
  moreover have "drain next' ?p = drain next' (?e (failure_events ''test 1'' (String ''boom'') 0))"
    by (rule drain_same_first) (simp add: next'_empty_pending settle_def on_rejected_eq)
  ultimately have "drain next' ?u = None"
    using d3 by (simp add: drain_Value)
  with s show ?thesis by simp
qed

section \<open>The four cases of a pull (C4)\<close>

text \<open>
  C4. A pull on a unit resolves by the state of its buffer. (1) A plain event at the
  front is removed and returned. (2) With a sub test at the front the sub test is pulled:
  an item it yields is returned and the slot stays, holding the sub test as the pull left
  it; when the sub test is done, the slot is replaced by the \<^verbatim>\<open>testAssert\<close> event built from
  its summary (folding the summary's pass into the unit's) and the pull is made again,
  which returns that event. (3) With an empty buffer and the unit not done, the pull is
  the pull made once the body has settled. (4) With an empty buffer and the unit done,
  the pull signals the end with the \<^verbatim>\<open>result\<close> object as value.
\<close>

theorem next'_four_cases:
  "(buffer u = Event e # rest \<longrightarrow> next' u = Some (Value e, set_buffer rest u)) \<and>
   (buffer u = SubTest delegate # rest \<and> next' delegate = Some (Value v, delegate') \<longrightarrow>
      next' u = Some (Value v, set_buffer (SubTest delegate' # rest) u)) \<and>
   (buffer u = SubTest delegate # rest \<and> next' delegate = Some (Done summary, delegate') \<longrightarrow>
      (let sub = \<lparr>message = TestAssert
                    \<lparr>pass = pass' summary, description = String (description' summary),
                     operator = None, expected = None, actual = None, at' = None,
                     id' = instance_id delegate', executionTime = executionTime' summary\<rparr>,
                  offset = Some (unit_offset u)\<rparr>;
           u' = set_result ((result u)\<lparr>pass' := pass' (result u) \<and> pass' summary\<rparr>) u
       in next' u = next' (set_buffer (Event sub # rest) u') \<and>
          next' u = Some (Value sub, set_buffer rest u'))) \<and>
   (buffer u = [] \<and> \<not> done' u \<longrightarrow> next' u = next' (settle u)) \<and>
   (buffer u = [] \<and> done' u \<longrightarrow> next' u = Some (Done (result u), u))"
proof (intro conjI impI)
  assume "buffer u = Event e # rest"
  then show "next' u = Some (Value e, set_buffer rest u)" by (rule next'_Event)
next
  assume "buffer u = SubTest delegate # rest \<and> next' delegate = Some (Value v, delegate')"
  then show "next' u = Some (Value v, set_buffer (SubTest delegate' # rest) u)"
    by (simp add: next'_SubTest_Value)
next
  assume a: "buffer u = SubTest delegate # rest \<and> next' delegate = Some (Done summary, delegate')"
  obtain sub u' where s: "subTestAssertion summary delegate' u = (sub, u')"
    by (cases "subTestAssertion summary delegate' u")
  have r: "next' u = next' (set_buffer (Event sub # rest) u')"
    using a s by (simp add: next'_SubTest_Done)
  have "next' (set_buffer (Event sub # rest) u') = Some (Value sub, set_buffer rest u')"
    using next'_Event [of "set_buffer (Event sub # rest) u'" sub rest] by simp
  with r subTestAssertion_event [OF s]
  show "let sub = \<lparr>message = TestAssert
                    \<lparr>pass = pass' summary, description = String (description' summary),
                     operator = None, expected = None, actual = None, at' = None,
                     id' = instance_id delegate', executionTime = executionTime' summary\<rparr>,
                  offset = Some (unit_offset u)\<rparr>;
           u' = set_result ((result u)\<lparr>pass' := pass' (result u) \<and> pass' summary\<rparr>) u
       in next' u = next' (set_buffer (Event sub # rest) u') \<and>
          next' u = Some (Value sub, set_buffer rest u')"
    by (simp add: Let_def)
next
  assume "buffer u = [] \<and> \<not> done' u"
  then show "next' u = next' (settle u)" by (simp add: next'_empty_pending)
next
  assume "buffer u = [] \<and> done' u"
  then show "next' u = Some (Done (result u), u)" by (simp add: next'_empty_done)
qed

text \<open>One instance of each case.\<close>

theorem next'_four_cases_witness:
  "next' (tester 0 ''test 1'' []) =
     Some (Value \<lparr>message = Title ''test 1'', offset = Some 0\<rparr>, set_buffer [] (tester 0 ''test 1'' [])) \<and>
   next' (idle_parent [SubTest (tester 1 ''child'' [])]) =
     Some (Value \<lparr>message = Title ''child'', offset = Some 1\<rparr>,
           idle_parent [SubTest (set_buffer [] (tester 1 ''child'' []))]) \<and>
   next' (idle_parent [SubTest finished_unit]) =
     Some (Value \<lparr>message = TestAssert
                    \<lparr>pass = True, description = String ''test 1'', operator = None,
                     expected = None, actual = None, at' = None, id' = Some 1,
                     executionTime = Some 500\<rparr>,
                  offset = Some 0\<rparr>,
           idle_parent []) \<and>
   next' (idle_parent []) = next' (settle (idle_parent [])) \<and>
   next' finished_unit = Some (Done (result finished_unit), finished_unit)"
proof -
  let ?t = "tester 0 ''test 1'' []"
  let ?c = "tester 1 ''child'' []"
  have c: "next' ?c = Some (Value \<lparr>message = Title ''child'', offset = Some 1\<rparr>, set_buffer [] ?c)"
    by (subst next'.simps) (simp add: tester_def)
  have f: "next' finished_unit = Some (Done (result finished_unit), finished_unit)"
    by (subst next'.simps) (simp add: finished_unit_def)
  have 1: "next' ?t = Some (Value \<lparr>message = Title ''test 1'', offset = Some 0\<rparr>, set_buffer [] ?t)"
    using next'_four_cases [of ?t "\<lparr>message = Title ''test 1'', offset = Some 0\<rparr>" "[]"]
    by (simp add: tester_def)
  have 2: "next' (idle_parent [SubTest ?c]) =
     Some (Value \<lparr>message = Title ''child'', offset = Some 1\<rparr>, idle_parent [SubTest (set_buffer [] ?c)])"
    using c next'_four_cases [of "idle_parent [SubTest ?c]" _ "[]" ?c
        "\<lparr>message = Title ''child'', offset = Some 1\<rparr>" "set_buffer [] ?c"]
    by (simp add: idle_parent_def)
  have 3: "next' (idle_parent [SubTest finished_unit]) =
     Some (Value \<lparr>message = TestAssert
                    \<lparr>pass = True, description = String ''test 1'', operator = None,
                     expected = None, actual = None, at' = None, id' = Some 1,
                     executionTime = Some 500\<rparr>,
                  offset = Some 0\<rparr>,
           idle_parent [])"
    using f next'_four_cases [of "idle_parent [SubTest finished_unit]" _ "[]" finished_unit _
        finished_unit "result finished_unit"]
    by (auto simp: idle_parent_def finished_unit_def Let_def)
  have 4: "next' (idle_parent []) = next' (settle (idle_parent []))"
    using next'_four_cases [of "idle_parent []"] by (simp add: idle_parent_def)
  have 5: "next' finished_unit = Some (Done (result finished_unit), finished_unit)"
    using next'_four_cases [of finished_unit] by (simp add: finished_unit_def)
  from 1 2 3 4 5 show ?thesis by simp
qed

section \<open>\<^verbatim>\<open>throws\<close> and \<^verbatim>\<open>doesNotThrow\<close> (C9)\<close>

text \<open>
  Against C9 as stated: \<^verbatim>\<open>throws\<close> has no comparison with a given value. For
  \<^verbatim>\<open>t.throws(() => { throw 1 }, 2)\<close> the result passes, although the raised value is not
  the given one.
\<close>

theorem throws_exact_value_counterexample:
  "passes (throws realm (raising (Number 1)) (Number 2) Undefined realm_heap) \<and>
   Number 1 \<noteq> Number 2"
  by code_simp

text \<open>
  With a regular expression and a function that returns, \<^verbatim>\<open>pass\<close> is whatever the regular
  expression says of \<^verbatim>\<open>undefined\<close>: the branch lacks the \<^verbatim>\<open>&& caught\<close> of the branch of a
  function. So \<^verbatim>\<open>t.throws(() => {}, /def/)\<close> passes.
\<close>

lemma throws_regexp_without_raise:
  assumes "func h = Normal v h1"
    and "instanceof H (matcher expected0 description0) (RegExp' H) h1 = Normal True h2"
    and "regexp_test H (matcher expected0 description0) Undefined h2 = Normal True h3"
    and "to_String H (matcher expected0 description0) h3 = Normal s h4"
  shows "\<exists>r. throws H func expected0 description0 h = Normal r h4 \<and> pass r"
  using assms
  by (auto simp: throws_def matcher_def andThen_def Let_def split: if_splits)

lemma throws_regexp_without_raise_instance:
  "passes (throws realm (returning Undefined) re_def Undefined realm_heap)"
  by code_simp

text \<open>
  C9, as the source has it. \<^verbatim>\<open>throws\<close> first asks whether the matcher \<open>m\<close> is a regular
  expression; it raises what an operation of the host raises, and otherwise returns a
  result \<open>r\<close>, as follows. When the function raises \<open>err\<close>:
  \<^item> with a regular expression as matcher, \<open>r\<close> passes if the expression matches \<open>err\<close>,
    and otherwise if and only if it matches the message of \<open>err\<close> (\<open>err\<close> itself when
    \<open>err\<close> is not truthy);
  \<^item> with a function as matcher, \<open>r\<close> passes if and only if \<open>err\<close> is an instance of it;
  \<^item> with no matcher or a matcher of any other kind, \<open>r\<close> passes.

  When the function returns and the matcher is not a regular expression, \<open>r\<close> does not
  pass. \<^verbatim>\<open>doesNotThrow\<close> passes if and only if the function returns.
\<close>

theorem throws_doesNotThrow_pass:
  "(let m = matcher expected0 description0; T = throws H func expected0 description0 h in
    (func h = Abrupt err h1 \<longrightarrow>
       (instanceof H m (RegExp' H) h1 = Abrupt x h2 \<longrightarrow> T = Abrupt x h2) \<and>
       (instanceof H m (RegExp' H) h1 = Normal True h2 \<longrightarrow>
          (regexp_test H m err h2 = Abrupt x h3 \<longrightarrow> T = Abrupt x h3) \<and>
          (regexp_test H m err h2 = Normal True h3 \<longrightarrow>
             (to_String H m h3 = Abrupt x h4 \<longrightarrow> T = Abrupt x h4) \<and>
             (to_String H m h3 = Normal s h4 \<longrightarrow> (\<exists>r. T = Normal r h4 \<and> pass r))) \<and>
          (regexp_test H m err h2 = Normal False h3 \<longrightarrow>
             (truthy err \<and> message_of H err h3 = Abrupt x h4 \<longrightarrow> T = Abrupt x h4) \<and>
             ((if truthy err then message_of H err h3 else Normal err h3) = Normal msg h4 \<longrightarrow>
                (regexp_test H m msg h4 = Abrupt x h5 \<longrightarrow> T = Abrupt x h5) \<and>
                (regexp_test H m msg h4 = Normal b h5 \<longrightarrow>
                   (to_String H m h5 = Abrupt x h6 \<longrightarrow> T = Abrupt x h6) \<and>
                   (to_String H m h5 = Normal s h6 \<longrightarrow>
                      (\<exists>r. T = Normal r h6 \<and> pass r = b)))))) \<and>
       (instanceof H m (RegExp' H) h1 = Normal False h2 \<longrightarrow>
          (typeof m = ''function'' \<longrightarrow>
             (instanceof H err m h2 = Abrupt x h3 \<longrightarrow> T = Abrupt x h3) \<and>
             (instanceof H err m h2 = Normal b h3 \<longrightarrow>
                (constructor_of H err h3 = Abrupt x h4 \<longrightarrow> T = Abrupt x h4) \<and>
                (constructor_of H err h3 = Normal k h4 \<longrightarrow>
                   (\<exists>r. T = Normal r h4 \<and> pass r = b)))) \<and>
          (typeof m \<noteq> ''function'' \<longrightarrow> (\<exists>r. T = Normal r h2 \<and> pass r)))) \<and>
    (func h = Normal v h1 \<longrightarrow>
       (instanceof H m (RegExp' H) h1 = Abrupt x h2 \<longrightarrow> T = Abrupt x h2) \<and>
       (instanceof H m (RegExp' H) h1 = Normal False h2 \<longrightarrow>
          (\<exists>r. T = Normal r h2 \<and> \<not> pass r)))) \<and>
   (pass (fst (doesNotThrow func expected0 description0 h)) \<longleftrightarrow>
      (\<exists>v h'. func h = Normal v h'))"
  by (auto simp: throws_def doesNotThrow_def matcher_def andThen_def Let_def
           split: completion.splits if_splits)

text \<open>
  An instance with a constructor as matcher: \<^verbatim>\<open>t.throws(f, Error, 'should raise')\<close> passes
  for an \<^verbatim>\<open>f\<close> that raises \<^verbatim>\<open>new TypeError('boom')\<close> and does not pass for an \<^verbatim>\<open>f\<close> that
  returns, for which \<^verbatim>\<open>t.doesNotThrow(f)\<close> passes.
\<close>

theorem throws_doesNotThrow_pass_witness:
  "(\<exists>r. throws realm (raising boom) Error_constructor (String ''should raise'') realm_heap =
          Normal r realm_heap \<and> pass r) \<and>
   (\<exists>r. throws realm (returning Undefined) Error_constructor Undefined realm_heap =
          Normal r realm_heap \<and> \<not> pass r) \<and>
   pass (fst (doesNotThrow (returning Undefined) Error_constructor Undefined realm_heap))"
proof -
  have a: "instanceof realm Error_constructor (RegExp' realm) realm_heap = Normal False realm_heap"
    by code_simp
  have b: "instanceof realm boom Error_constructor realm_heap = Normal True realm_heap"
    by code_simp
  have c: "constructor_of realm boom realm_heap = Normal TypeError_constructor realm_heap"
    by code_simp
  have f: "typeof Error_constructor = ''function''"
    by (simp add: Error_constructor_def)
  show ?thesis
    using throws_doesNotThrow_pass
        [where H = realm and func = "raising boom" and ?expected0.0 = Error_constructor
           and ?description0.0 = "String ''should raise''" and h = realm_heap
           and err = boom and ?h1.0 = realm_heap and ?h2.0 = realm_heap
           and ?h3.0 = realm_heap and ?h4.0 = realm_heap and b = True
           and k = TypeError_constructor]
      throws_doesNotThrow_pass
        [where H = realm and func = "returning Undefined" and ?expected0.0 = Error_constructor
           and ?description0.0 = Undefined and h = realm_heap
           and v = Undefined and ?h1.0 = realm_heap and ?h2.0 = realm_heap]
    by (simp add: a b c f matcher_def raising_def returning_def Let_def)
qed

text \<open>
  Where \<^verbatim>\<open>throws\<close> raises instead of returning a result: with \<^verbatim>\<open>/boom/\<close> as matcher and a
  raised object that cannot be converted to a string, although its message is \<^verbatim>\<open>'boom'\<close>;
  and with \<^verbatim>\<open>() => {}\<close> as matcher and a raised object, for that function has no
  \<^verbatim>\<open>prototype\<close>. With the same matcher and the raised number 1, which is no object,
  \<^verbatim>\<open>instanceof\<close> answers false and the result does not pass.
\<close>

lemma throws_raises_on_unconvertible_value:
  "raises (throws realm (raising bare) re_boom Undefined realm_heap)"
  by code_simp

lemma throws_raises_on_function_without_prototype:
  "raises (throws realm (raising boom) arrow Undefined realm_heap) \<and>
   \<not> raises (throws realm (raising (Number 1)) arrow Undefined realm_heap) \<and>
   \<not> passes (throws realm (raising (Number 1)) arrow Undefined realm_heap)"
  by code_simp

text \<open>
  Constructors are told apart by identity and not by name: an object built by one of two
  functions of the same name is an instance of that one only.
\<close>

lemma throws_constructors_of_one_name:
  "passes (throws realm (raising failure_here) Failure_here Undefined realm_heap) \<and>
   \<not> passes (throws realm (raising failure_here) Failure_there Undefined realm_heap)"
  by code_simp

text \<open>
  The two calls of \<^verbatim>\<open>test\<close> act on the state of the regular expression. With \<^verbatim>\<open>/boom/g\<close>
  at \<^verbatim>\<open>lastIndex\<close> 20 the first call, on the raised \<^verbatim>\<open>new TypeError('boom')\<close>, starts
  beyond the end of the string \<^verbatim>\<open>'TypeError: boom'\<close>: it answers false and resets
  \<^verbatim>\<open>lastIndex\<close>, so the second call, on the message, finds \<^verbatim>\<open>'boom'\<close> and leaves
  \<^verbatim>\<open>lastIndex\<close> at 4.
\<close>

lemma throws_moves_lastIndex:
  "(case throws realm (raising boom) re_boom_used Undefined realm_heap of
      Normal r h \<Rightarrow> pass r \<and> map_option matching (deref h re_boom_used) = Some (Some (''boom'', True, 4))
    | Abrupt _ _ \<Rightarrow> False) \<and>
   regexp_test realm re_boom_used boom realm_heap =
     Normal False (realm_heap[19 := regexp_object ''boom'' True 0])"
  by code_simp

section \<open>The terminal value does not pass the combinators (C10)\<close>

text \<open>
  C10. When the underlying sequence ends with a terminal value, \<^verbatim>\<open>filter\<close>, \<^verbatim>\<open>map\<close> and
  \<^verbatim>\<open>combine\<close> (here on its last iterator) signal the end with no value; and whenever one
  of them signals the end, it does so with no value. So a consumer behind them, the pull
  loop of \<^verbatim>\<open>start\<close> included, never sees the summary of a unit.
\<close>

theorem combinators_drop_terminal_value:
  "(iterator s = Some (Done summary, s') \<longrightarrow>
      filter' predicate iterator s = Some (Done None, s') \<and>
      map' mapFn iterator (s, c) = Some (Done None, (s', c)) \<and>
      combine iterator (Some s, []) = Some (Done None, (None, []))) \<and>
   (filter' predicate iterator s = Some (Done v1, s1) \<longrightarrow> v1 = None) \<and>
   (map' mapFn iterator sc = Some (Done v2, sc2) \<longrightarrow> v2 = None) \<and>
   (combine iterator st = Some (Done v3, st3) \<longrightarrow> v3 = None)"
proof (intro conjI impI)
  assume d: "iterator s = Some (Done summary, s')"
  show "filter' predicate iterator s = Some (Done None, s')"
    using d by (subst filter'.simps) simp
  show "map' mapFn iterator (s, c) = Some (Done None, (s', c))"
    using d by (simp add: map'_def)
  have "combine iterator (None, []) = Some (Done None, (None, []))"
    by (subst combine.simps) simp
  then show "combine iterator (Some s, []) = Some (Done None, (None, []))"
    using d by (subst combine.simps) simp
next
  assume "filter' predicate iterator s = Some (Done v1, s1)"
  then show "v1 = None" using filter'_Done_aux by fastforce
next
  assume "map' mapFn iterator sc = Some (Done v2, sc2)"
  then show "v2 = None" by (rule map'_Done)
next
  assume "combine iterator st = Some (Done v3, st3)"
  then show "v3 = None" using combine_Done_aux by fastforce
qed

text \<open>An instance: a unit that is done, behind each of the combinators.\<close>

theorem combinators_drop_terminal_value_witness:
  "next' finished_unit = Some (Done (result finished_unit), finished_unit) \<and>
   filter' keep next' finished_unit = Some (Done None, finished_unit) \<and>
   map' renumber next' (finished_unit, \<lparr>count' = 2, success = 2, failure = 0\<rparr>) =
     Some (Done None, (finished_unit, \<lparr>count' = 2, success = 2, failure = 0\<rparr>)) \<and>
   combine next' (Some finished_unit, []) = Some (Done None, (None, []))"
proof -
  have d: "next' finished_unit = Some (Done (result finished_unit), finished_unit)"
    by (subst next'.simps) (simp add: finished_unit_def)
  show ?thesis
    using d combinators_drop_terminal_value
      [of next' finished_unit "result finished_unit" finished_unit keep renumber
          "\<lparr>count' = 2, success = 2, failure = 0\<rparr>"]
    by simp
qed

section \<open>A failing body and the run (C2)\<close>

text \<open>
  C2, as the source has it. A body that raises after the calls \<open>pre\<close> makes none of the
  calls that follow: the unit is what the failure handler makes of the unit after \<open>pre\<close>,
  whatever the rest of the body. When the \<^verbatim>\<open>bailout\<close> event of a unit reaches the numbered
  stream at a positive offset (the offset of every unit below the root when units are
  registered with \<^verbatim>\<open>test.test\<close>), it is forwarded unchanged, the pull loop reports it and
  stops with the raised value, and \<^verbatim>\<open>start\<close> is rejected with that value: nothing after
  the \<^verbatim>\<open>bailout\<close> is pulled or reported, sibling units included.
\<close>

theorem bailout_ends_run:
  "((\<forall>e. Throw e \<notin> set pre) \<longrightarrow>
      run_body (pre @ Throw err # rest) u = on_rejected err (fold exec pre u)) \<and>
   (iterator s = Some (Value b, s') \<and> message b = Bailout err \<and> offset_positive b \<longrightarrow>
      numbered iterator (s, c) = Some (Value b, (s', c)) \<and>
      pull_loop (numbered iterator) (s, c) reported =
        Some (Rejected err, reported @ [b], (s', c)) \<and>
      finish (Rejected err, reported @ [b], (s', c)) = (Rejected err, reported @ [b]))"
proof (intro conjI impI)
  assume "\<forall>e. Throw e \<notin> set pre"
  then show "run_body (pre @ Throw err # rest) u = on_rejected err (fold exec pre u)"
    by (simp add: run_body_append)
next
  assume a: "iterator s = Some (Value b, s') \<and> message b = Bailout err \<and> offset_positive b"
  then show n: "numbered iterator (s, c) = Some (Value b, (s', c))"
    by (simp add: numbered_bailout)
  show "pull_loop (numbered iterator) (s, c) reported =
        Some (Rejected err, reported @ [b], (s', c))"
    using n a by (simp add: pull_loop_Bailout)
  show "finish (Rejected err, reported @ [b], (s', c)) = (Rejected err, reported @ [b])"
    by (simp add: finish_def)
qed

text \<open>An instance of both parts.\<close>

theorem bailout_ends_run_witness:
  "run_body ([passing ''a1''] @ Throw (String ''boom'') # [passing ''a2'']) (tester 1 ''A'' []) =
     on_rejected (String ''boom'') (fold exec [passing ''a1''] (tester 1 ''A'' [])) \<and>
   pull_loop (numbered next') (bailing_unit, \<lparr>count' = 1, success = 0, failure = 1\<rparr>) [version_report] =
     Some (Rejected (String ''boom''),
           [version_report] @ [\<lparr>message = Bailout (String ''boom''), offset = Some 1\<rparr>],
           (set_buffer [] bailing_unit, \<lparr>count' = 1, success = 0, failure = 1\<rparr>))"
proof -
  have n: "next' bailing_unit =
     Some (Value \<lparr>message = Bailout (String ''boom''), offset = Some 1\<rparr>, set_buffer [] bailing_unit)"
    by (simp add: next'_Event bailing_unit_def)
  show ?thesis
    using n bailout_ends_run [of "[passing ''a1'']" "String ''boom''" "[passing ''a2'']"
        "tester 1 ''A'' []" next' bailing_unit
        "\<lparr>message = Bailout (String ''boom''), offset = Some 1\<rparr>" "set_buffer [] bailing_unit"
        "\<lparr>count' = 1, success = 0, failure = 1\<rparr>" "[version_report]"]
    by (simp add: passing_def offset_positive_def)
qed

text \<open>
  Against C2 as stated: with \<^verbatim>\<open>test.test('A', () => { throw 'boom' })\<close> followed by
  \<^verbatim>\<open>test.test('B', t => { t.ok(true, 'b1') })\<close> the run is rejected at the \<^verbatim>\<open>bailout\<close> of
  \<^verbatim>\<open>A\<close>. Nothing of the sibling \<^verbatim>\<open>B\<close> is reported, and no \<^verbatim>\<open>testAssert\<close> summarises \<^verbatim>\<open>A\<close>
  to its parent.
\<close>

theorem nested_failure_counterexample:
  "start nested_failure_run =
     Some (Rejected (String ''boom''),
       [version_report,
        \<lparr>message = Title ''A'', offset = Some 1\<rparr>,
        \<lparr>message = Assert
           \<lparr>pass = False, description = String ''A'', operator = None, expected = None,
            actual = None, at' = None, id' = Some 1, executionTime = None\<rparr>,
         offset = None\<rparr>,
        \<lparr>message = Comment ''Unhandled exception'', offset = None\<rparr>,
        \<lparr>message = Bailout (String ''boom''), offset = Some 1\<rparr>])"
  by code_simp

text \<open>
  A failure at offset 0. The unit registered by \<^verbatim>\<open>test('A', () => { throw 'boom' })\<close>
  has its \<^verbatim>\<open>bailout\<close> at offset 0, which \<^verbatim>\<open>toKeep\<close> does not keep: the loop never
  receives it, the pull that follows never resolves, and the promise of \<^verbatim>\<open>start\<close> never
  settles.
\<close>

lemma top_level_failure_never_settles: "start top_failure_run = None"
proof -
  have a: "tests top_failure_run = [tester 0 ''Root'' [], tester 0 ''A'' [Throw (String ''boom'')]]"
    "flatten top_failure_run"
    by (simp_all add: top_failure_run_def test_def module_init_def)
  have n: "next' (tester 0 ''Root'' []) =
      Some (Value \<lparr>message = Title ''Root'', offset = Some 0\<rparr>, set_buffer [] (tester 0 ''Root'' []))"
    by (simp add: next'_Event tester_def)
  have h: "pull_loop (numbered (flattened (combine next')))
     (((Some failed_A, []), ()), \<lparr>count' = 1, success = 0, failure = 1\<rparr>)
     [version_report, \<lparr>message = Title ''A'', offset = Some 0\<rparr>,
      \<lparr>message = Assert
           \<lparr>pass = False, description = String ''A'', operator = None, expected = None,
            actual = None, at' = None, id' = Some 1, executionTime = None\<rparr>,
         offset = Some 0\<rparr>] = None"
    by (rule flattened_loop_hangs [where es = "[\<lparr>message = Comment ''Unhandled exception'', offset = None\<rparr>,
               \<lparr>message = Bailout (String ''boom''), offset = Some 0\<rparr>]"])
       (simp_all add: failed_A_def)
  show ?thesis
    using a n top_failure_first_pulls h
    by (simp add: start_def Let_def version_report_def)
qed

section \<open>Concatenation (C3)\<close>

text \<open>
  C3. For iterators \<open>iterators\<close> whose sequences, each drained on its own, are \<open>sequences\<close>,
  the combined iterator yields all items of the first sequence, then all items of the
  second, and so on, and then ends. And for top-level units none of whose bodies raises,
  however far the bodies of the units (nested ones included) have got by the time the
  merged sequence is drained, the merged sequence is the sequence of the first unit, then
  that of the second, and so on, in the order of declaration.
\<close>

theorem combine_concatenates:
  "(list_all2 (\<lambda>c xs. \<exists>r c'. drain iterator c = Some (xs, r, c')) iterators sequences \<longrightarrow>
      drain (combine iterator) (shift iterators) = Some (concat sequences, None, (None, []))) \<and>
   (list_all2 (\<lambda>u w. sound u \<and> advance\<^sup>*\<^sup>* u w) units units' \<longrightarrow>
      drain (combine next') (shift units') = Some (concat (map events_of units), None, (None, [])))"
  using drain_combine_all [of iterator iterators sequences]
    drain_combine_all [OF drain_all_advanced, of units units']
  by simp

text \<open>
  The scenario of \<^verbatim>\<open>src/test/samples/async.js\<close>, at a moment when the body of test 2 has
  settled and the body of test 1 has only made its first assertion: the merged sequence is
  still all of test 1 followed by all of test 2.
\<close>

theorem combine_concatenates_witness:
  "drain (combine next') (shift [progress test_1, settle test_2]) =
     Some (concat [sample_events ''test 1'' ''assert1'' ''assert2'' 500,
                   sample_events ''test 2'' ''assert3'' ''assert4'' 300], None, (None, [])) \<and>
   drain (combine next') (shift [progress test_1, progress (progress (progress (progress test_2)))]) =
     Some (concat (map events_of [test_1, test_2]), None, (None, []))"
proof -
  have "map_option fst (drain next' (progress test_1)) =
          Some (sample_events ''test 1'' ''assert1'' ''assert2'' 500)"
    by code_simp
  then have 1: "\<exists>r c'. drain next' (progress test_1) =
          Some (sample_events ''test 1'' ''assert1'' ''assert2'' 500, r, c')"
    by (rule drain_fst)
  have "map_option fst (drain next' (settle test_2)) =
          Some (sample_events ''test 2'' ''assert3'' ''assert4'' 300)"
    by code_simp
  then have 2: "\<exists>r c'. drain next' (settle test_2) =
          Some (sample_events ''test 2'' ''assert3'' ''assert4'' 300, r, c')"
    by (rule drain_fst)
  have s: "sound test_1" "sound test_2"
    by (simp_all add: test_1_def test_2_def passing_def sound_tester)
  have a1: "advance\<^sup>*\<^sup>* test_1 (progress test_1)"
    by (intro r_into_rtranclp advance.here)
  have a2: "advance\<^sup>*\<^sup>* test_2 (progress (progress (progress (progress test_2))))"
  proof -
    have "advance\<^sup>*\<^sup>* test_2 (progress test_2)"
      by (intro r_into_rtranclp advance.here)
    then have "advance\<^sup>*\<^sup>* test_2 (progress (progress test_2))"
      by (rule rtranclp.rtrancl_into_rtrancl) (rule advance.here)
    then have "advance\<^sup>*\<^sup>* test_2 (progress (progress (progress test_2)))"
      by (rule rtranclp.rtrancl_into_rtrancl) (rule advance.here)
    then show ?thesis
      by (rule rtranclp.rtrancl_into_rtrancl) (rule advance.here)
  qed
  note t = combine_concatenates [of next' "[progress test_1, settle test_2]"
        "[sample_events ''test 1'' ''assert1'' ''assert2'' 500,
          sample_events ''test 2'' ''assert3'' ''assert4'' 300]"
        "[test_1, test_2]"
        "[progress test_1, progress (progress (progress (progress test_2)))]"]
  have p1: "drain (combine next') (shift [progress test_1, settle test_2]) =
     Some (concat [sample_events ''test 1'' ''assert1'' ''assert2'' 500,
                   sample_events ''test 2'' ''assert3'' ''assert4'' 300], None, (None, []))"
    using t 1 2 by simp
  have p2: "drain (combine next') (shift [progress test_1, progress (progress (progress (progress test_2)))]) =
     Some (concat (map events_of [test_1, test_2]), None, (None, []))"
    using t s a1 a2 by simp
  from p1 p2 show ?thesis by (rule conjI)
qed

section \<open>Presentation without flattening (C5)\<close>

text \<open>
  C5, as the source has it. Without flattening, when the merged sequence is \<open>xs\<close> and no
  \<^verbatim>\<open>bailout\<close> is forwarded, the reports of a run are the version, the forwarded events
  \<open>ys\<close>, and then a \<^verbatim>\<open>plan\<close> and a \<^verbatim>\<open>comment\<close> of the scheduler's own (no \<^verbatim>\<open>time\<close>). The
  forwarded events are, kind by kind and offset by offset, the events of \<open>xs\<close> that are at
  a positive offset or of kind title, assert, testAssert or comment; those at a positive
  offset are forwarded unchanged.
\<close>

theorem hierarchical_policy:
  assumes "tests h = root # others" and "\<not> flatten h"
    and "next' root = Some (first, root')"
    and "drain (combine next') (shift (root' # others)) = Some (xs, r, st)"
    and "\<forall>e\<in>set xs. offset_positive e \<longrightarrow> type (message e) \<noteq> ''bailout''"
  shows "\<exists>ys (c::tally). start h = Some (Fulfilled,
             version_report # ys @
             [\<lparr>message = Plan 1 (count' c), offset = None\<rparr>,
              \<lparr>message = Comment
                 (if failure c > 0
                  then ''failed '' @ string_of_nat (failure c) @ '' of '' @
                       string_of_nat (count' c) @ '' tests''
                  else ''ok''), offset = None\<rparr>]) \<and>
           map (\<lambda>e. (type (message e), offset e)) ys =
             map (\<lambda>e. (type (message e), offset e))
               (filter (\<lambda>e. offset_positive e \<or>
                   type (message e) \<in> {''title'', ''assert'', ''testAssert'', ''comment''}) xs) \<and>
           filter offset_positive ys = filter offset_positive xs"
proof -
  let ?c = "\<lparr>count' = 0, success = 0, failure = 0\<rparr>"
  let ?k = "filter keep xs"
  have k: "?k = filter (\<lambda>e. offset_positive e \<or>
                   type (message e) \<in> {''title'', ''assert'', ''testAssert'', ''comment''}) xs"
    by (rule filter_cong) (simp_all add: keep_iff)
  have p: "filter offset_positive ?k = filter offset_positive xs"
    by (induction xs) (auto simp: keep_def)
  let ?ys = "fst (thread renumber ?k ?c)"
  let ?c' = "snd (thread renumber ?k ?c)"
  have s: "start h = Some (Fulfilled,
             version_report # ?ys @
             [\<lparr>message = Plan 1 (count' ?c'), offset = None\<rparr>,
              \<lparr>message = Comment
                 (if failure ?c' > 0
                  then ''failed '' @ string_of_nat (failure ?c') @ '' of '' @
                       string_of_nat (count' ?c') @ '' tests''
                  else ''ok''), offset = None\<rparr>])"
    using start_hierarchical [OF assms] by (simp only: final_reports_def version_report_def)
  have m: "map (\<lambda>e. (type (message e), offset e)) ?ys =
             map (\<lambda>e. (type (message e), offset e))
               (filter (\<lambda>e. offset_positive e \<or>
                   type (message e) \<in> {''title'', ''assert'', ''testAssert'', ''comment''}) xs)"
    using thread_renumber_kinds [of ?k ?c] by (simp only: k)
  have f: "filter offset_positive ?ys = filter offset_positive xs"
    using thread_renumber_positive [of ?k ?c] p by simp
  have "start h = Some (Fulfilled,
             version_report # ?ys @
             [\<lparr>message = Plan 1 (count' ?c'), offset = None\<rparr>,
              \<lparr>message = Comment
                 (if failure ?c' > 0
                  then ''failed '' @ string_of_nat (failure ?c') @ '' of '' @
                       string_of_nat (count' ?c') @ '' tests''
                  else ''ok''), offset = None\<rparr>]) \<and>
        map (\<lambda>e. (type (message e), offset e)) ?ys =
             map (\<lambda>e. (type (message e), offset e))
               (filter (\<lambda>e. offset_positive e \<or>
                   type (message e) \<in> {''title'', ''assert'', ''testAssert'', ''comment''}) xs) \<and>
        filter offset_positive ?ys = filter offset_positive xs"
    using s m f by (intro conjI)
  then show ?thesis by - (rule exI, rule exI, assumption)
qed

text \<open>An instance: one unit registered with \<^verbatim>\<open>test.test\<close>.\<close>

theorem hierarchical_policy_witness:
  "\<exists>ys (c::tally). start hier_run = Some (Fulfilled,
             version_report # ys @
             [\<lparr>message = Plan 1 (count' c), offset = None\<rparr>,
              \<lparr>message = Comment
                 (if failure c > 0
                  then ''failed '' @ string_of_nat (failure c) @ '' of '' @
                       string_of_nat (count' c) @ '' tests''
                  else ''ok''), offset = None\<rparr>]) \<and>
           map (\<lambda>e. (type (message e), offset e)) ys =
             [(''title'', Some 1), (''assert'', Some 1), (''plan'', Some 1), (''time'', Some 1),
              (''testAssert'', Some 0)] \<and>
           filter offset_positive ys = take 4 hier_events"
proof -
  have a: "tests hier_run = [hier_root]"
    by (simp add: hier_run_def test_test_def module_init_def hier_root_def)
  have f: "\<not> flatten hier_run"
    by (simp add: hier_run_def test_test_def module_init_def)
  have b: "\<forall>e\<in>set hier_events. offset_positive e \<longrightarrow> type (message e) \<noteq> ''bailout''"
    by (simp add: hier_events_def passed_def summary_event_def)
  show ?thesis
    using hierarchical_policy [OF a f hier_next hier_drain b]
    by (simp add: hier_events_def passed_def summary_event_def offset_positive_def)
qed

text \<open>
  Against C5 as stated: the reports of a run without flattening. After the merged
  sequence the scheduler emits a \<^verbatim>\<open>plan\<close> and a \<^verbatim>\<open>comment\<close>; the only \<^verbatim>\<open>time\<close> event
  reported is the nested unit's own.
\<close>

theorem hierarchical_time_counterexample:
  "start hier_run = Some (Fulfilled,
     [version_report,
      \<lparr>message = Title ''test 1'', offset = Some 1\<rparr>,
      passed ''assert1'' 1 1,
      \<lparr>message = Plan 1 1, offset = Some 1\<rparr>,
      \<lparr>message = Time 0, offset = Some 1\<rparr>,
      summary_event ''test 1'' 1 0 0,
      \<lparr>message = Plan 1 1, offset = None\<rparr>,
      \<lparr>message = Comment ''ok'', offset = None\<rparr>])"
  by code_simp

section \<open>Presentation with flattening (C6)\<close>

text \<open>
  C6. With flattening, when the merged sequence is \<open>xs\<close>, the run is fulfilled, no
  forwarded event is a \<^verbatim>\<open>testAssert\<close>, every forwarded event has offset 0, and the
  forwarded events are in order the title, assert and comment events of \<open>xs\<close>. In
  particular, a body with one nested unit of two passing assertions and one passing
  assertion of its own is reported as three \<^verbatim>\<open>assert\<close> events at offset 0, numbered 1 to
  3, and no \<^verbatim>\<open>testAssert\<close>.
\<close>

theorem flattened_policy:
  assumes "tests h = root # others" and "flatten h"
    and "next' root = Some (first, root')"
    and "drain (combine next') (shift (root' # others)) = Some (xs, r, st)"
  shows "(\<exists>ys c. start h = Some (Fulfilled, version_report # ys @ final_reports c) \<and>
            (\<forall>e\<in>set ys. type (message e) \<noteq> ''testAssert'' \<and> offset e = Some 0) \<and>
            map (\<lambda>e. type (message e)) ys =
              filter (\<lambda>t. t \<in> {''title'', ''assert'', ''comment''}) (map (\<lambda>e. type (message e)) xs)) \<and>
         start flat_run = Some (Fulfilled,
           [version_report,
            \<lparr>message = Title ''parent'', offset = Some 0\<rparr>,
            \<lparr>message = Title ''nested'', offset = Some 0\<rparr>,
            passed ''a1'' 1 0, passed ''a2'' 2 0, passed ''top'' 3 0,
            \<lparr>message = Plan 1 3, offset = None\<rparr>,
            \<lparr>message = Comment ''ok'', offset = None\<rparr>])"
proof
  let ?c = "\<lparr>count' = 0, success = 0, failure = 0\<rparr>"
  let ?z = "map (\<lambda>e. e\<lparr>offset := Some 0\<rparr>) (filter not_testAssert xs)"
  let ?k = "filter keep ?z"
  let ?ys = "fst (thread renumber ?k ?c)"
  let ?c' = "snd (thread renumber ?k ?c)"
  have t: "map (\<lambda>e. (type (message e), offset e)) ?ys = map (\<lambda>e. (type (message e), offset e)) ?k"
    by (rule thread_renumber_kinds)
  have "map fst (map (\<lambda>e. (type (message e), offset e)) ?ys) =
        map fst (map (\<lambda>e. (type (message e), offset e)) ?k)"
    by (simp only: t)
  then have "map (\<lambda>e. type (message e)) ?ys = map (\<lambda>e. type (message e)) ?k"
    by (simp add: comp_def)
  then have m: "map (\<lambda>e. type (message e)) ?ys =
      filter (\<lambda>t. t \<in> {''title'', ''assert'', ''comment''}) (map (\<lambda>e. type (message e)) xs)"
    by (simp only: kept_after_flatten)
  have all: "\<forall>e\<in>set ?ys. type (message e) \<noteq> ''testAssert'' \<and> offset e = Some 0"
  proof
    fix e assume "e \<in> set ?ys"
    then obtain x where x: "x \<in> set ?k" "type (message x) = type (message e)" "offset x = offset e"
      using in_thread_renumber by blast
    from x(1) have "type (message x) \<noteq> ''testAssert'' \<and> offset x = Some 0"
      by (auto simp: not_testAssert_def)
    then show "type (message e) \<noteq> ''testAssert'' \<and> offset e = Some 0"
      using x(2,3) by simp
  qed
  have s: "start h = Some (Fulfilled, version_report # ?ys @ final_reports ?c')"
    using start_flattened [OF assms] by (simp only: version_report_def)
  have "start h = Some (Fulfilled, version_report # ?ys @ final_reports ?c') \<and>
        (\<forall>e\<in>set ?ys. type (message e) \<noteq> ''testAssert'' \<and> offset e = Some 0) \<and>
        map (\<lambda>e. type (message e)) ?ys =
          filter (\<lambda>t. t \<in> {''title'', ''assert'', ''comment''}) (map (\<lambda>e. type (message e)) xs)"
    using s all m by (intro conjI)
  then show "\<exists>ys c. start h = Some (Fulfilled, version_report # ys @ final_reports c) \<and>
            (\<forall>e\<in>set ys. type (message e) \<noteq> ''testAssert'' \<and> offset e = Some 0) \<and>
            map (\<lambda>e. type (message e)) ys =
              filter (\<lambda>t. t \<in> {''title'', ''assert'', ''comment''}) (map (\<lambda>e. type (message e)) xs)"
    by - (rule exI, rule exI, assumption)
next
  show "start flat_run = Some (Fulfilled,
           [version_report,
            \<lparr>message = Title ''parent'', offset = Some 0\<rparr>,
            \<lparr>message = Title ''nested'', offset = Some 0\<rparr>,
            passed ''a1'' 1 0, passed ''a2'' 2 0, passed ''top'' 3 0,
            \<lparr>message = Plan 1 3, offset = None\<rparr>,
            \<lparr>message = Comment ''ok'', offset = None\<rparr>])"
    by code_simp
qed

text \<open>An instance of the general part: the same run.\<close>

theorem flattened_policy_witness:
  "\<exists>ys c. start flat_run = Some (Fulfilled, version_report # ys @ final_reports c) \<and>
          map (\<lambda>e. type (message e)) ys = [''title'', ''title'', ''assert'', ''assert'', ''assert'']"
proof -
  have a: "tests flat_run = [tester 0 ''Root'' [], flat_parent]"
    by (simp add: flat_run_def test_def module_init_def flat_parent_def)
  have f: "flatten flat_run"
    by (simp add: flat_run_def test_def module_init_def)
  have n: "next' (tester 0 ''Root'' []) =
      Some (Value \<lparr>message = Title ''Root'', offset = Some 0\<rparr>, set_buffer [] (tester 0 ''Root'' []))"
    by (simp add: next'_Event tester_def)
  have k: "filter (\<lambda>t. t \<in> {''title'', ''assert'', ''comment''}) (map (\<lambda>e. type (message e)) flat_events)
           = [''title'', ''title'', ''assert'', ''assert'', ''assert'']"
    by (simp add: flat_events_def passed_def summary_event_def)
  from flattened_policy [OF a f n flat_drain]
  obtain ys c where y: "start flat_run = Some (Fulfilled, version_report # ys @ final_reports c)"
    "map (\<lambda>e. type (message e)) ys =
       filter (\<lambda>t. t \<in> {''title'', ''assert'', ''comment''}) (map (\<lambda>e. type (message e)) flat_events)"
    by iprover
  have "start flat_run = Some (Fulfilled, version_report # ys @ final_reports c) \<and>
        map (\<lambda>e. type (message e)) ys = [''title'', ''title'', ''assert'', ''assert'', ''assert'']"
    using y unfolding k by (intro conjI)
  then show ?thesis by iprover
qed

section \<open>Renumbering (C7)\<close>

text \<open>
  C7. When the merged sequence is \<open>xs\<close> and the counters stand at \<open>c\<close>, the numbered
  stream yields exactly the events of \<open>xs\<close> that the policy forwards, in their order, each
  as it was but for the id of the \<^verbatim>\<open>assert\<close> and \<^verbatim>\<open>testAssert\<close> events whose offset is not
  positive: those get the ids \<open>count' c + 1\<close>, \<open>count' c + 2\<close>, ... in the order they are
  forwarded (1, 2, 3, ... from the initial counters of \<^verbatim>\<open>start\<close>). At the end \<^verbatim>\<open>count\<close> has
  grown by their number, \<^verbatim>\<open>success\<close> by the number of them that pass and \<^verbatim>\<open>failure\<close> by
  the number of them that do not. The events at a positive offset are forwarded as they
  were, ids included, and count for nothing.
\<close>

theorem renumber_stream:
  assumes "drain iterator s = Some (xs, r, s')"
  shows "drain (numbered iterator) (s, c) =
           Some (global_ids (count' c) (forwarded xs), None,
                 (s', \<lparr>count' = count' c + length (filter is_point (forwarded xs)),
                       success = success c +
                         length (filter (\<lambda>e. is_point e \<and> point_pass e) (forwarded xs)),
                       failure = failure c +
                         length (filter (\<lambda>e. is_point e \<and> \<not> point_pass e) (forwarded xs))\<rparr>)) \<and>
         map point_id (filter is_point (global_ids (count' c) (forwarded xs))) =
           map Some [count' c + 1 ..< count' c + 1 + length (filter is_point (forwarded xs))] \<and>
         filter offset_positive (global_ids (count' c) (forwarded xs)) = filter offset_positive xs"
proof -
  let ?k = "filter keep xs"
  have d: "drain (numbered iterator) (s, c) =
             Some (fst (thread renumber ?k c), None, (s', snd (thread renumber ?k c)))"
    using assms by (rule drain_numbered)
  have p: "filter offset_positive ?k = filter offset_positive xs"
    by (induction xs) (auto simp: keep_def)
  show ?thesis
    using d thread_renumber [of ?k c] p
    by (simp add: thread_renumber_global_ids thread_renumber_tally filter_keep_forwarded)
qed

text \<open>
  An instance: the events of test 2 of \<^verbatim>\<open>src/test/samples/async.js\<close>, with the counters as
  test 1 has left them. The \<^verbatim>\<open>plan\<close> and \<^verbatim>\<open>time\<close> events of the unit are not forwarded, its
  two assertions, numbered 1 and 2 in the unit, get the ids 3 and 4, and the counters end
  at 4 numbered events, 4 of them passing.
\<close>

theorem renumber_stream_witness:
  "\<exists>s'. drain (numbered next') (settle test_2, \<lparr>count' = 2, success = 2, failure = 0\<rparr>) =
        Some ([\<lparr>message = Title ''test 2'', offset = Some 0\<rparr>,
               passed ''assert3'' 3 0, passed ''assert4'' 4 0], None,
              (s', \<lparr>count' = 4, success = 4, failure = 0\<rparr>))"
proof -
  have "map_option fst (drain next' (settle test_2)) =
          Some (sample_events ''test 2'' ''assert3'' ''assert4'' 300)"
    by code_simp
  then have "\<exists>r s'. drain next' (settle test_2) =
          Some (sample_events ''test 2'' ''assert3'' ''assert4'' 300, r, s')"
    by (rule drain_fst)
  then obtain r s' where d: "drain next' (settle test_2) =
          Some (sample_events ''test 2'' ''assert3'' ''assert4'' 300, r, s')"
    by iprover
  have "drain (numbered next') (settle test_2, \<lparr>count' = 2, success = 2, failure = 0\<rparr>) =
        Some ([\<lparr>message = Title ''test 2'', offset = Some 0\<rparr>,
               passed ''assert3'' 3 0, passed ''assert4'' 4 0], None,
              (s', \<lparr>count' = 4, success = 4, failure = 0\<rparr>))"
    using renumber_stream [OF d, of "\<lparr>count' = 2, success = 2, failure = 0\<rparr>"]
    by (simp add: global_ids_def forwarded_def sample_events_def passed_def is_point_def
          point_pass_def offset_positive_def with_id_def enumerate_eq_zip ok_def)
  then show ?thesis by (rule exI)
qed

section \<open>The aggregate pass value (C8)\<close>

text \<open>
  C8. For a unit built by \<^verbatim>\<open>tester\<close> from any body, at any offset: when no body in it
  raises, draining its sequence comes to an end with a summary; and whenever draining
  ends, the \<^verbatim>\<open>pass\<close> of the summary is the conjunction of the \<^verbatim>\<open>pass\<close> of every assertion
  result collected directly in the unit and of the aggregate pass value of every nested
  unit.
\<close>

theorem aggregate_pass_total:
  "(no_throw spec \<longrightarrow>
      (\<exists>events summary u'. drain next' (tester off description0 spec) = Some (events, summary, u'))) \<and>
   (drain next' (tester off description0 spec) = Some (events, summary, u') \<longrightarrow>
      pass' summary = spec_aggregatePass spec)"
proof (intro conjI impI)
  assume "no_throw spec"
  then show "\<exists>events summary u'. drain next' (tester off description0 spec) = Some (events, summary, u')"
    by (intro drain_sound sound_tester)
next
  assume "drain next' (tester off description0 spec) = Some (events, summary, u')"
  then show "pass' summary = spec_aggregatePass spec"
    using drain_final_pass by (simp add: final_pass_tester)
qed

text \<open>An instance: the nested unit fails, so the summary of the parent fails.\<close>

theorem aggregate_pass_total_witness:
  "\<exists>events summary u'. drain next' (tester 0 ''parent'' mixed_spec) = Some (events, summary, u') \<and>
      pass' summary = False"
proof -
  have n: "no_throw mixed_spec" by (simp add: mixed_spec_def)
  have a: "spec_aggregatePass mixed_spec = False" by (simp add: mixed_spec_def fail_def)
  from n aggregate_pass_total [of mixed_spec 0 "''parent''"]
  obtain events summary u' where
    d: "drain next' (tester 0 ''parent'' mixed_spec) = Some (events, summary, u')"
    by iprover
  from d aggregate_pass_total [of mixed_spec 0 "''parent''" events summary u']
  have "pass' summary = spec_aggregatePass mixed_spec" by iprover
  then have "drain next' (tester 0 ''parent'' mixed_spec) = Some (events, summary, u') \<and>
      pass' summary = False"
    using d a by simp
  then show ?thesis by iprover
qed

end
